theory Spec2Isabelle
  imports Main
begin

section \<open>The configuration loader of read.go\<close>

text \<open>
  The source file read.go comes in two revisions. The first one (the directive-aware
  revision) knows \<^verbatim>\<open>#include\<close> and \<^verbatim>\<open>#require\<close> and keeps a \<^verbatim>\<open>Required\<close> flag per file;
  the second one (the glob revision) knows \<^verbatim>\<open>#include\<close> only and expands glob patterns.
  Both are embedded here. The definitions of the first revision carry the names of the
  source; those of the second revision carry the same names with the suffix \<open>G\<close>.

  Go strings are byte strings, so a string is a \<^typ>\<open>string\<close>, a list of 8-bit characters.
\<close>

subsection \<open>Library functions on strings\<close>

text \<open>
  \<^verbatim>\<open>unicode.IsSpace\<close> holds for the runes U+0009 to U+000D, U+0020, U+0085, U+00A0, U+1680,
  U+2000 to U+200A, U+2028, U+2029, U+202F, U+205F and U+3000. Their UTF-8 encodings are
  listed here; a string starts (ends) with a white space rune exactly when it starts
  (ends) with one of these byte sequences.
\<close>

definition spaceRunes :: "string list" where
  "spaceRunes =
     [[CHR 0x09], [CHR 0x0A], [CHR 0x0B], [CHR 0x0C], [CHR 0x0D], [CHR 0x20],
      [CHR 0xC2, CHR 0x85], [CHR 0xC2, CHR 0xA0], [CHR 0xE1, CHR 0x9A, CHR 0x80],
      [CHR 0xE2, CHR 0x80, CHR 0x80], [CHR 0xE2, CHR 0x80, CHR 0x81],
      [CHR 0xE2, CHR 0x80, CHR 0x82], [CHR 0xE2, CHR 0x80, CHR 0x83],
      [CHR 0xE2, CHR 0x80, CHR 0x84], [CHR 0xE2, CHR 0x80, CHR 0x85],
      [CHR 0xE2, CHR 0x80, CHR 0x86], [CHR 0xE2, CHR 0x80, CHR 0x87],
      [CHR 0xE2, CHR 0x80, CHR 0x88], [CHR 0xE2, CHR 0x80, CHR 0x89],
      [CHR 0xE2, CHR 0x80, CHR 0x8A], [CHR 0xE2, CHR 0x80, CHR 0xA8],
      [CHR 0xE2, CHR 0x80, CHR 0xA9], [CHR 0xE2, CHR 0x80, CHR 0xAF],
      [CHR 0xE2, CHR 0x81, CHR 0x9F], [CHR 0xE3, CHR 0x80, CHR 0x80]]"

text \<open>The number of bytes of the white space rune a string starts with, 0 if there is none.\<close>

definition leadingWidth :: "string list \<Rightarrow> string \<Rightarrow> nat" where
  "leadingWidth ws s =
     (case filter (\<lambda>w. take (length w) s = w) ws of [] \<Rightarrow> 0 | w # _ \<Rightarrow> length w)"

fun trimLeading :: "string list \<Rightarrow> string \<Rightarrow> string" where
  "trimLeading ws [] = []"
| "trimLeading ws (c # cs) =
     (if leadingWidth ws (c # cs) = 0 then c # cs
      else trimLeading ws (drop (leadingWidth ws (c # cs) - 1) cs))"

text \<open>\<^verbatim>\<open>strings.TrimRightFunc(s, unicode.IsSpace)\<close> and \<^verbatim>\<open>strings.TrimSpace(s)\<close>.\<close>

definition TrimRightSpace :: "string \<Rightarrow> string" where
  "TrimRightSpace s = rev (trimLeading (map rev spaceRunes) (rev s))"

definition TrimSpace :: "string \<Rightarrow> string" where
  "TrimSpace s = TrimRightSpace (trimLeading spaceRunes s)"

text \<open>
  \<^verbatim>\<open>strings.IndexAny(s, chars)\<close> for ASCII \<open>chars\<close>: the index of the first byte of \<open>s\<close> that
  occurs in \<open>chars\<close>, or -1.
\<close>

fun IndexAny :: "string \<Rightarrow> string \<Rightarrow> int" where
  "IndexAny [] chars = - 1"
| "IndexAny (c # cs) chars =
     (if c \<in> set chars then 0
      else (let i = IndexAny cs chars in if i < 0 then - 1 else i + 1))"

subsection \<open>The directive patterns\<close>

text \<open>
  The regular expressions \<^verbatim>\<open>^#include\s+(.+?)\s*$\<close> and \<^verbatim>\<open>^#require\s+(.+?)\s*$\<close>.
  \<^verbatim>\<open>\s\<close> is the class of tab, line feed, form feed, carriage return and space; the dot
  matches everything but a line feed. \<open>captureLazy\<close> matches \<^verbatim>\<open>(.+?)\s*$\<close>: the shortest
  non-empty capture that leaves white space only. \<open>spacesThenCapture\<close> matches
  \<^verbatim>\<open>\s+\<close> greedily, giving characters back one at a time while the rest fails.
  \<open>findDirective kw l\<close> is \<^verbatim>\<open>FindStringSubmatch(l)\<close> reduced to its capture group, for the
  pattern with the keyword \<open>kw\<close>.
\<close>

definition reSpace :: "char \<Rightarrow> bool" where
  "reSpace c \<longleftrightarrow> c = CHR 0x09 \<or> c = CHR 0x0A \<or> c = CHR 0x0C \<or> c = CHR 0x0D \<or> c = CHR 0x20"

fun captureLazy :: "string \<Rightarrow> string option" where
  "captureLazy [] = None"
| "captureLazy (c # cs) =
     (if c = CHR 0x0A then None
      else if list_all reSpace cs then Some [c]
      else map_option ((#) c) (captureLazy cs))"

fun spacesThenCapture :: "string \<Rightarrow> nat \<Rightarrow> string option" where
  "spacesThenCapture r 0 = None"
| "spacesThenCapture r (Suc k) =
     (case captureLazy (drop (Suc k) r) of
        Some m \<Rightarrow> Some m
      | None \<Rightarrow> spacesThenCapture r k)"

definition findDirective :: "string \<Rightarrow> string \<Rightarrow> string option" where
  "findDirective kw l =
     (if take (length kw) l = kw
      then (let r = drop (length kw) l in spacesThenCapture r (length (takeWhile reSpace r)))
      else None)"

text \<open>The regular expression \<^verbatim>\<open>[\*\?]\<close> of the glob revision.\<close>

definition reGlob :: "string \<Rightarrow> bool" where
  "reGlob s \<longleftrightarrow> list_ex (\<lambda>c. c = CHR ''*'' \<or> c = CHR ''?'') s"

subsection \<open>Errors, the file system and the store\<close>

text \<open>
  \<open>ErrorString\<close> is the value of \<^verbatim>\<open>errors.New\<close>; \<open>SysError\<close> stands for the errors that
  the packages os, path/filepath and bufio return.
\<close>

datatype error = ErrorString string | SysError string

text \<open>
  An open file: the tokens that the line scanner delivers, the error the scanner ends
  with (\<^verbatim>\<open>scanner.Err()\<close>) and the error of the first \<^verbatim>\<open>Close\<close>.
\<close>

record osFile =
  scanned :: "string list"
  scanErr :: "error option"
  closeErr :: "error option"

text \<open>
  The functions of the packages path/filepath and os that the loader calls, and the
  function \<^verbatim>\<open>stripComments\<close> of the package, which read.go calls and does not define.
  They are parameters of the model.
\<close>

record env =
  IsAbs :: "string \<Rightarrow> bool"
  Join :: "string \<Rightarrow> string \<Rightarrow> string"
  Dir :: "string \<Rightarrow> string"
  Abs :: "string \<Rightarrow> error + string"
  Glob :: "string \<Rightarrow> error + string list"
  Open :: "string \<Rightarrow> error + osFile"
  stripComments :: "string \<Rightarrow> string"

text \<open>
  The store behind \<^verbatim>\<open>Config\<close>: its methods \<^verbatim>\<open>AddSection\<close>, \<^verbatim>\<open>AddOption\<close> and \<^verbatim>\<open>RawString\<close>
  are called in read.go and defined elsewhere in the package. They follow section 6 of
  the specification.
\<close>

type_synonym store = "string \<rightharpoonup> (string \<rightharpoonup> string)"

text \<open>
  Modelled from the spec: \<^verbatim>\<open>AddSection\<close>, which is not part of read.go. It makes sure that
  the section exists and is idempotent.
\<close>

definition AddSection :: "string \<Rightarrow> store \<Rightarrow> store" where
  "AddSection name c = (case c name of None \<Rightarrow> c(name \<mapsto> Map.empty) | Some _ \<Rightarrow> c)"

text \<open>
  Modelled from the spec: \<^verbatim>\<open>AddOption\<close>, which is not part of read.go. It inserts the
  value of the option or overwrites the present one.
\<close>

definition AddOption :: "string \<Rightarrow> string \<Rightarrow> string \<Rightarrow> store \<Rightarrow> store" where
  "AddOption sec opt v c =
     c(sec \<mapsto> (case c sec of None \<Rightarrow> [opt \<mapsto> v] | Some m \<Rightarrow> m(opt \<mapsto> v)))"

text \<open>
  Modelled from the spec: \<^verbatim>\<open>RawString\<close>, which is not part of read.go. It returns the
  current raw value of the option and whether it exists.
\<close>

definition RawString :: "string \<Rightarrow> string \<Rightarrow> store \<Rightarrow> string \<times> bool" where
  "RawString sec opt c =
     (case c sec of
        None \<Rightarrow> ([], False)
      | Some m \<Rightarrow> (case m opt of None \<Rightarrow> ([], False) | Some v \<Rightarrow> (v, True)))"

subsection \<open>The state of a load\<close>

text \<open>
  \<open>parser\<close> is what \<^verbatim>\<open>Config.read\<close> works on: its local variables \<^verbatim>\<open>section\<close> and
  \<^verbatim>\<open>option\<close>, the receiver \<^verbatim>\<open>c\<close> and the argument \<^verbatim>\<open>list\<close>, both passed by pointer.
  \<open>loader\<close> is what \<^verbatim>\<open>_read\<close> and \<^verbatim>\<open>_readFile\<close> work on: \<^verbatim>\<open>c\<close>, \<^verbatim>\<open>list\<close> and the paths
  passed to \<^verbatim>\<open>os.Open\<close> so far, in the order of the calls. A function that returns a Go
  \<^verbatim>\<open>error\<close> returns an \<^typ>\<open>error option\<close> together with the state it leaves behind.
\<close>

record 'l parser =
  "section" :: string
  option :: string
  pconf :: store
  plist :: 'l

record 'l loader =
  conf :: store
  files :: 'l
  opened :: "string list"

subsection \<open>The directive-aware revision\<close>

record configFile =
  Path :: string
  Required :: bool
  Read :: bool

type_synonym fileList = "configFile list"

definition pushFile :: "env \<Rightarrow> string \<Rightarrow> bool \<Rightarrow> fileList \<Rightarrow> error option \<times> fileList" where
  "pushFile env path required lst =
     (case (if \<not> IsAbs env path
            then Abs env (if length lst > 0 then Join env (Dir env (Path (lst ! 0))) path
                          else path)
            else Inr path) of
        Inl err \<Rightarrow> (Some err, lst)
      | Inr absPath \<Rightarrow>
          if list_ex (\<lambda>file. Path file = absPath) lst then (None, lst)
          else (None, lst @ [\<lparr>Path = absPath, Required = required, Read = False\<rparr>]))"

definition includeFile :: "env \<Rightarrow> string \<Rightarrow> fileList \<Rightarrow> error option \<times> fileList" where
  "includeFile env path lst = pushFile env path False lst"

definition requireFile :: "env \<Rightarrow> string \<Rightarrow> fileList \<Rightarrow> error option \<times> fileList" where
  "requireFile env path lst = pushFile env path True lst"

text \<open>
  The body of the loop of \<^verbatim>\<open>Config.read\<close>, for the line \<open>l\<close> that is left after the
  comments and the white space at the end are gone. The errors of \<^verbatim>\<open>includeFile\<close> and
  \<^verbatim>\<open>requireFile\<close> are dropped, as are the results of \<^verbatim>\<open>AddSection\<close> and \<^verbatim>\<open>AddOption\<close>.
\<close>

definition read_line :: "env \<Rightarrow> string \<Rightarrow> fileList parser \<Rightarrow> error option \<times> fileList parser" where
  "read_line env l st =
     (if length l = 0 \<or> l ! 0 = CHR '';'' then (None, st)
      else if l ! 0 = CHR ''#'' then
        (case findDirective ''#include'' l of
           Some m \<Rightarrow> (None, st\<lparr>plist := snd (includeFile env m (plist st))\<rparr>)
         | None \<Rightarrow>
             (case findDirective ''#require'' l of
                Some m \<Rightarrow> (None, st\<lparr>plist := snd (requireFile env m (plist st))\<rparr>)
              | None \<Rightarrow> (None, st)))
      else if l ! 0 = CHR ''['' \<and> l ! (length l - 1) = CHR '']'' then
        (let section' = TrimSpace (drop 1 (take (length l - 1) l))
         in (None, st\<lparr>option := [], section := section',
                        pconf := AddSection section' (pconf st)\<rparr>))
      else if section st \<noteq> [] \<and> option st \<noteq> [] \<and> (l ! 0 = CHR '' '' \<or> l ! 0 = CHR 0x09) then
        (let prev = fst (RawString (section st) (option st) (pconf st));
             v = TrimSpace l
         in (None, st\<lparr>pconf := AddOption (section st) (option st) (prev @ [CHR 0x0A] @ v)
                                   (pconf st)\<rparr>))
      else
        (let i = IndexAny l ''=:''
         in if i > 0 \<and> l ! 0 \<noteq> CHR '' '' \<and> l ! 0 \<noteq> CHR 0x09 then
              (let option' = TrimSpace (take (nat i) l);
                   v = TrimSpace (drop (nat (i + 1)) l)
               in (None, st\<lparr>option := option',
                              pconf := AddOption (section st) option' v (pconf st)\<rparr>))
            else (Some (ErrorString (''could not parse line: '' @ l)), st)))"

fun read_loop :: "env \<Rightarrow> string list \<Rightarrow> fileList parser \<Rightarrow> error option \<times> fileList parser" where
  "read_loop env [] st = (None, st)"
| "read_loop env (t # ts) st =
     (case read_line env (TrimRightSpace (stripComments env t)) st of
        (Some err, st') \<Rightarrow> (Some err, st')
      | (None, st') \<Rightarrow> read_loop env ts st')"

definition Config_read :: "env \<Rightarrow> osFile \<Rightarrow> store \<Rightarrow> fileList \<Rightarrow> error option \<times> store \<times> fileList" where
  "Config_read env buf c lst =
     (case read_loop env (scanned buf) \<lparr>section = [], option = [], pconf = c, plist = lst\<rparr> of
        (Some err, st) \<Rightarrow> (Some err, pconf st, plist st)
      | (None, st) \<Rightarrow> (scanErr buf, pconf st, plist st))"

definition priv_readFile ::
  "env \<Rightarrow> string \<Rightarrow> bool \<Rightarrow> fileList loader \<Rightarrow> error option \<times> fileList loader" where
  "priv_readFile env fname require st =
     (let st1 = st\<lparr>opened := opened st @ [fname]\<rparr>
      in case Open env fname of
           Inl err \<Rightarrow> if require then (Some err, st1) else (None, st1)
         | Inr f \<Rightarrow>
             (case Config_read env f (conf st1) (files st1) of
                (Some err, c, lst) \<Rightarrow> (Some err, st1\<lparr>conf := c, files := lst\<rparr>)
              | (None, c, lst) \<Rightarrow> (closeErr f, st1\<lparr>conf := c, files := lst\<rparr>)))"

text \<open>
  One pass of \<^verbatim>\<open>_read\<close> over the list: \<^verbatim>\<open>range\<close> evaluates \<^verbatim>\<open>*list\<close> once, so the pass visits
  the \<open>n\<close> entries the list has when the pass starts, by index, whatever the pass appends.
  \<open>passLoop env k i h st\<close> has \<open>k\<close> entries left, the next at index \<open>i\<close>, and \<open>h\<close> for
  \<^verbatim>\<open>hasUnread\<close>. The entries are pointers, so marking the file as read updates the entry
  at its index in the list as it is after \<^verbatim>\<open>_readFile\<close>.
\<close>

fun passLoop ::
  "env \<Rightarrow> nat \<Rightarrow> nat \<Rightarrow> bool \<Rightarrow> fileList loader \<Rightarrow> error option \<times> bool \<times> fileList loader" where
  "passLoop env 0 i h st = (None, h, st)"
| "passLoop env (Suc k) i h st =
     (if \<not> Read (files st ! i) then
        (case priv_readFile env (Path (files st ! i)) (Required (files st ! i)) st of
           (Some err, st') \<Rightarrow> (Some err, h, st')
         | (None, st') \<Rightarrow>
             passLoop env k (i + 1) True
               (st'\<lparr>files := (files st')[i := (files st' ! i)\<lparr>Read := True\<rparr>]\<rparr>))
      else passLoop env k (i + 1) h st)"

text \<open>
  \<^verbatim>\<open>_read\<close>: the passes are repeated until one of them finds no unread file. The loop
  need not end, so the function is partial: \<open>None\<close> is a load that never returns.
  Go returns \<^verbatim>\<open>(nil, err)\<close> or \<^verbatim>\<open>(c, nil)\<close>; the model returns the error, if any, and the
  state, in which \<open>conf\<close> is \<^verbatim>\<open>c\<close>.
\<close>

partial_function (option) priv_read ::
  "env \<Rightarrow> fileList loader \<Rightarrow> (error option \<times> fileList loader) option" where
  "priv_read env st =
     (case passLoop env (length (files st)) 0 False st of
        (Some err, h, st') \<Rightarrow> Some (Some err, st')
      | (None, h, st') \<Rightarrow> if h then priv_read env st' else Some (None, st'))"

text \<open>
  \<^verbatim>\<open>Read\<close> and \<^verbatim>\<open>ReadDefault\<close>: \<open>c0\<close> is the configuration that \<^verbatim>\<open>New\<close> or \<^verbatim>\<open>NewDefault\<close>
  returns. The error of \<^verbatim>\<open>requireFile\<close> is dropped.
\<close>

definition ReadDefault :: "env \<Rightarrow> store \<Rightarrow> string \<Rightarrow> (error option \<times> fileList loader) option" where
  "ReadDefault env c0 fname =
     priv_read env \<lparr>conf = c0, files = snd (requireFile env fname []), opened = []\<rparr>"

subsection \<open>The glob revision\<close>

record configFileG =
  PathG :: string
  ReadG :: bool

type_synonym fileListG = "configFileG list"

text \<open>
  The loop of \<^verbatim>\<open>pushFile\<close> over the candidates. A candidate that is in the list already
  ends the function with \<^verbatim>\<open>return nil\<close>.
\<close>

fun pushCandidates :: "string list \<Rightarrow> fileListG \<Rightarrow> fileListG" where
  "pushCandidates [] lst = lst"
| "pushCandidates (candidate # cs) lst =
     (if list_ex (\<lambda>file. PathG file = candidate) lst then lst
      else pushCandidates cs (lst @ [\<lparr>PathG = candidate, ReadG = False\<rparr>]))"

definition pushFileG :: "env \<Rightarrow> string \<Rightarrow> fileListG \<Rightarrow> error option \<times> fileListG" where
  "pushFileG env path lst =
     (case (if \<not> IsAbs env path
            then Abs env (if length lst > 0 then Join env (Dir env (PathG (lst ! 0))) path
                          else path)
            else Inr path) of
        Inl err \<Rightarrow> (Some err, lst)
      | Inr absPath \<Rightarrow>
          (case (if reGlob absPath then Glob env absPath else Inr [absPath]) of
             Inl err \<Rightarrow> (Some err, lst)
           | Inr candidates \<Rightarrow> (None, pushCandidates candidates lst)))"

definition read_lineG :: "env \<Rightarrow> string \<Rightarrow> fileListG parser \<Rightarrow> error option \<times> fileListG parser" where
  "read_lineG env l st =
     (if length l = 0 \<or> l ! 0 = CHR '';'' then (None, st)
      else if l ! 0 = CHR ''#'' then
        (case findDirective ''#include'' l of
           Some m \<Rightarrow> (None, st\<lparr>plist := snd (pushFileG env m (plist st))\<rparr>)
         | None \<Rightarrow> (None, st))
      else if l ! 0 = CHR ''['' \<and> l ! (length l - 1) = CHR '']'' then
        (let section' = TrimSpace (drop 1 (take (length l - 1) l))
         in (None, st\<lparr>option := [], section := section',
                        pconf := AddSection section' (pconf st)\<rparr>))
      else if section st \<noteq> [] \<and> option st \<noteq> [] \<and> (l ! 0 = CHR '' '' \<or> l ! 0 = CHR 0x09) then
        (let prev = fst (RawString (section st) (option st) (pconf st));
             v = TrimSpace l
         in (None, st\<lparr>pconf := AddOption (section st) (option st) (prev @ [CHR 0x0A] @ v)
                                   (pconf st)\<rparr>))
      else
        (let i = IndexAny l ''=:''
         in if i > 0 \<and> l ! 0 \<noteq> CHR '' '' \<and> l ! 0 \<noteq> CHR 0x09 then
              (let option' = TrimSpace (take (nat i) l);
                   v = TrimSpace (drop (nat (i + 1)) l)
               in (None, st\<lparr>option := option',
                              pconf := AddOption (section st) option' v (pconf st)\<rparr>))
            else (Some (ErrorString (''could not parse line: '' @ l)), st)))"

fun read_loopG :: "env \<Rightarrow> string list \<Rightarrow> fileListG parser \<Rightarrow> error option \<times> fileListG parser" where
  "read_loopG env [] st = (None, st)"
| "read_loopG env (t # ts) st =
     (case read_lineG env (TrimRightSpace (stripComments env t)) st of
        (Some err, st') \<Rightarrow> (Some err, st')
      | (None, st') \<Rightarrow> read_loopG env ts st')"

definition Config_readG ::
  "env \<Rightarrow> osFile \<Rightarrow> store \<Rightarrow> fileListG \<Rightarrow> error option \<times> store \<times> fileListG" where
  "Config_readG env buf c lst =
     (case read_loopG env (scanned buf) \<lparr>section = [], option = [], pconf = c, plist = lst\<rparr> of
        (Some err, st) \<Rightarrow> (Some err, pconf st, plist st)
      | (None, st) \<Rightarrow> (scanErr buf, pconf st, plist st))"

definition priv_readFileG ::
  "env \<Rightarrow> string \<Rightarrow> fileListG loader \<Rightarrow> error option \<times> fileListG loader" where
  "priv_readFileG env fname st =
     (let st1 = st\<lparr>opened := opened st @ [fname]\<rparr>
      in case Open env fname of
           Inl err \<Rightarrow> (Some err, st1)
         | Inr f \<Rightarrow>
             (case Config_readG env f (conf st1) (files st1) of
                (Some err, c, lst) \<Rightarrow> (Some err, st1\<lparr>conf := c, files := lst\<rparr>)
              | (None, c, lst) \<Rightarrow> (closeErr f, st1\<lparr>conf := c, files := lst\<rparr>)))"

fun passLoopG ::
  "env \<Rightarrow> nat \<Rightarrow> nat \<Rightarrow> bool \<Rightarrow> fileListG loader \<Rightarrow> error option \<times> bool \<times> fileListG loader" where
  "passLoopG env 0 i h st = (None, h, st)"
| "passLoopG env (Suc k) i h st =
     (if \<not> ReadG (files st ! i) then
        (case priv_readFileG env (PathG (files st ! i)) st of
           (Some err, st') \<Rightarrow> (Some err, h, st')
         | (None, st') \<Rightarrow>
             passLoopG env k (i + 1) True
               (st'\<lparr>files := (files st')[i := (files st' ! i)\<lparr>ReadG := True\<rparr>]\<rparr>))
      else passLoopG env k (i + 1) h st)"

partial_function (option) priv_readG ::
  "env \<Rightarrow> fileListG loader \<Rightarrow> (error option \<times> fileListG loader) option" where
  "priv_readG env st =
     (case passLoopG env (length (files st)) 0 False st of
        (Some err, h, st') \<Rightarrow> Some (Some err, st')
      | (None, h, st') \<Rightarrow> if h then priv_readG env st' else Some (None, st'))"

definition ReadDefaultG :: "env \<Rightarrow> store \<Rightarrow> string \<Rightarrow> (error option \<times> fileListG loader) option" where
  "ReadDefaultG env c0 fname =
     priv_readG env \<lparr>conf = c0, files = snd (pushFileG env fname []), opened = []\<rparr>"

declare priv_read.simps [code]
declare priv_readG.simps [code]

subsection \<open>Notions used in the properties\<close>

text \<open>The separators that \<^verbatim>\<open>IndexAny(l, "=:")\<close> looks for.\<close>

definition isSep :: "char \<Rightarrow> bool" where
  "isSep c \<longleftrightarrow> c = CHR ''='' \<or> c = CHR '':''"

text \<open>
  The line \<open>l\<close> reaches the \<^verbatim>\<open>default\<close> case of the switch in \<^verbatim>\<open>Config.read\<close>: none of the
  four cases before it applies.
\<close>

definition optionCase :: "string \<Rightarrow> 'l parser \<Rightarrow> bool" where
  "optionCase l st \<longleftrightarrow>
     l \<noteq> [] \<and> l ! 0 \<noteq> CHR '';'' \<and> l ! 0 \<noteq> CHR ''#'' \<and>
     \<not> (l ! 0 = CHR ''['' \<and> l ! (length l - 1) = CHR '']'') \<and>
     \<not> (section st \<noteq> [] \<and> option st \<noteq> [] \<and> (l ! 0 = CHR '' '' \<or> l ! 0 = CHR 0x09))"

text \<open>
  A small file system to run the loader on. The main file holds a section with a
  two-line value and includes a file that includes the main file in turn, and a file
  that does not exist; another file requires the file that does not exist. Comment
  stripping leaves these lines as they are, none has a comment.
\<close>

definition plainFile :: "string list \<Rightarrow> osFile" where
  "plainFile ls = \<lparr>scanned = ls, scanErr = None, closeErr = None\<rparr>"

definition sampleEnv :: env where
  "sampleEnv =
     \<lparr>IsAbs = (\<lambda>p. take 1 p = ''/''),
      Join = (\<lambda>d p. d @ ''/'' @ p),
      Dir = (\<lambda>p. rev (drop 1 (dropWhile (\<lambda>c. c \<noteq> CHR ''/'') (rev p)))),
      Abs = (\<lambda>p. Inr (if take 1 p = ''/'' then p else ''/cwd/'' @ p)),
      Glob = (\<lambda>p. Inr (if p = ''/etc/sub/*.cfg''
                       then [''/etc/sub/x.cfg'', ''/etc/sub/y.cfg''] else [])),
      Open = (\<lambda>p.
        if p = ''/etc/main.cfg''
        then Inr (plainFile [''[s]'', ''foo: bar'', ''  baz'', ''#include extra.cfg'',
                             ''#include missing.cfg''])
        else if p = ''/etc/extra.cfg''
        then Inr (plainFile [''#include main.cfg'', ''x = 1''])
        else if p = ''/etc/strict.cfg''
        then Inr (plainFile [''#require missing.cfg''])
        else Inl (SysError ''no such file or directory'')),
      stripComments = (\<lambda>l. l)\<rparr>"

text \<open>
  The state in which \<^verbatim>\<open>Config.read\<close> starts on the first file of a load into an empty
  store: no section, no option, nothing stored and nothing listed.
\<close>

definition freshParser :: "'a list parser" where
  "freshParser = \<lparr>section = [], option = [], pconf = Map.empty, plist = []\<rparr>"

text \<open>The state in which \<^verbatim>\<open>_read\<close> starts on a list, with an empty store.\<close>

definition loaderOf :: "'l \<Rightarrow> 'l loader" where
  "loaderOf lst = \<lparr>conf = Map.empty, files = lst, opened = []\<rparr>"

text \<open>The list after \<^verbatim>\<open>Read\<close> has pushed the main file of the sample, in either revision.\<close>

definition mainOnly :: fileList where
  "mainOnly = [\<lparr>Path = ''/etc/main.cfg'', Required = True, Read = False\<rparr>]"

definition mainOnlyG :: fileListG where
  "mainOnlyG = [\<lparr>PathG = ''/etc/main.cfg'', ReadG = False\<rparr>]"

text \<open>
  The list \<open>l'\<close> is the list \<open>l\<close> followed by new entries, all of them unread: nothing
  is removed, changed or moved.
\<close>

definition extends :: "fileList \<Rightarrow> fileList \<Rightarrow> bool" where
  "extends l l' \<longleftrightarrow> take (length l) l' = l \<and> list_all (\<lambda>f. \<not> Read f) (drop (length l) l')"

text \<open>
  The list \<open>l'\<close> has the entries of \<open>l\<close> at their places, with their paths and flags, and
  an entry that is read in \<open>l\<close> is read in \<open>l'\<close>.
\<close>

definition evolves :: "fileList \<Rightarrow> fileList \<Rightarrow> bool" where
  "evolves l l' \<longleftrightarrow>
     length l \<le> length l' \<and>
     list_all2 (\<lambda>f f'. Path f' = Path f \<and> Required f' = Required f \<and> (Read f \<longrightarrow> Read f'))
       l (take (length l) l')"

text \<open>
  The path of the main file, if the list has one, and the absolute path that \<^verbatim>\<open>pushFile\<close>
  computes from it and the path it is given (the first block of the function).
\<close>

definition rootOf :: "fileList \<Rightarrow> string option" where
  "rootOf lst = (if length lst > 0 then Some (Path (lst ! 0)) else None)"

definition rootOfG :: "fileListG \<Rightarrow> string option" where
  "rootOfG lst = (if length lst > 0 then Some (PathG (lst ! 0)) else None)"

definition resolvePath :: "env \<Rightarrow> string option \<Rightarrow> string \<Rightarrow> error + string" where
  "resolvePath env root path =
     (if IsAbs env path then Inr path
      else Abs env (case root of Some r \<Rightarrow> Join env (Dir env r) path | None \<Rightarrow> path))"

text \<open>The paths that the directive patterns capture in the lines of a file.\<close>

definition directives :: "env \<Rightarrow> string list \<Rightarrow> string list" where
  "directives env ts =
     concat (map (\<lambda>t. let l = TrimRightSpace (stripComments env t)
                      in (case findDirective ''#include'' l of Some m \<Rightarrow> [m] | None \<Rightarrow> []) @
                         (case findDirective ''#require'' l of Some m \<Rightarrow> [m] | None \<Rightarrow> [])) ts)"

text \<open>
  The absolute paths that the directives of the files that can be opened resolve to, with
  \<open>root\<close> as the main file.
\<close>

definition targets :: "env \<Rightarrow> string \<Rightarrow> string set" where
  "targets env root =
     {a. \<exists>p f m. Open env p = Inr f \<and> m \<in> set (directives env (scanned f)) \<and>
                 resolvePath env (Some root) m = Inr a}"

text \<open>The list starts with the main file \<open>root\<close> and all its paths are in \<open>T\<close>.\<close>

definition within :: "string \<Rightarrow> string set \<Rightarrow> fileList \<Rightarrow> bool" where
  "within root T l \<longleftrightarrow> 0 < length l \<and> Path (l ! 0) = root \<and> Path ` set l \<subseteq> T"

text \<open>The number of entries that are marked as read.\<close>

definition readCount :: "fileList \<Rightarrow> nat" where
  "readCount l = length (filter Read l)"

text \<open>
  The paths of the list are distinct, no path was passed to \<^verbatim>\<open>os.Open\<close> twice, and the paths
  passed to \<^verbatim>\<open>os.Open\<close> are those of the entries that are marked as read.
\<close>

definition openedOnce :: "fileList loader \<Rightarrow> bool" where
  "openedOnce s \<longleftrightarrow>
     distinct (map Path (files s)) \<and> distinct (opened s) \<and>
     set (opened s) \<subseteq> Path ` set (files s) \<and>
     (\<forall>k<length (files s). Read (files s ! k) \<longleftrightarrow> Path (files s ! k) \<in> set (opened s))"

text \<open>The same two notions for the list of the glob revision.\<close>

definition extendsG :: "fileListG \<Rightarrow> fileListG \<Rightarrow> bool" where
  "extendsG l l' \<longleftrightarrow> take (length l) l' = l \<and> list_all (\<lambda>f. \<not> ReadG f) (drop (length l) l')"

definition openedOnceG :: "fileListG loader \<Rightarrow> bool" where
  "openedOnceG s \<longleftrightarrow>
     distinct (map PathG (files s)) \<and> distinct (opened s) \<and>
     set (opened s) \<subseteq> PathG ` set (files s) \<and>
     (\<forall>k<length (files s). ReadG (files s ! k) \<longleftrightarrow> PathG (files s ! k) \<in> set (opened s))"







text \<open>
  The glossary of the specification calls canonical the absolute form of a path that is
  free of symbolic links and of relative elements. \<open>dotFree\<close> removes the elements \<open>.\<close> of
  a path, which stand for the directory they are in: two absolute paths with the same
  \<open>dotFree\<close> form name the same file and have the same canonical form.
\<close>

fun dotFree :: "string \<Rightarrow> string" where
  "dotFree [] = []"
| "dotFree (c # cs) =
     (if c = CHR ''/'' \<and> take 2 cs = ''./'' then dotFree (drop 1 cs) else c # dotFree cs)"

text \<open>
  A second file system, in which a path is opened whatever elements \<open>.\<close> it has. The main
  file includes the same file twice, once by a relative path and once by an absolute path
  with an element \<open>.\<close>.
\<close>

definition dotEnv :: env where
  "dotEnv =
     \<lparr>IsAbs = (\<lambda>p. take 1 p = ''/''),
      Join = (\<lambda>d p. d @ ''/'' @ p),
      Dir = (\<lambda>p. rev (drop 1 (dropWhile (\<lambda>c. c \<noteq> CHR ''/'') (rev p)))),
      Abs = (\<lambda>p. Inr (if take 1 p = ''/'' then p else ''/cwd/'' @ p)),
      Glob = (\<lambda>p. Inr []),
      Open = (\<lambda>p.
        if dotFree p = ''/etc/main.cfg''
        then Inr (plainFile [''#include extra.cfg'', ''#include /etc/./extra.cfg''])
        else if dotFree p = ''/etc/extra.cfg''
        then Inr (plainFile [''x = 1''])
        else Inl (SysError ''no such file or directory'')),
      stripComments = (\<lambda>l. l)\<rparr>"

text \<open>The list of that load after the first directive of the main file, in either revision.\<close>

definition mainExtra :: fileList where
  "mainExtra = [\<lparr>Path = ''/etc/main.cfg'', Required = True, Read = False\<rparr>,
                \<lparr>Path = ''/etc/extra.cfg'', Required = False, Read = False\<rparr>]"

definition mainExtraG :: fileListG where
  "mainExtraG = [\<lparr>PathG = ''/etc/main.cfg'', ReadG = False\<rparr>,
                 \<lparr>PathG = ''/etc/extra.cfg'', ReadG = False\<rparr>]"

section \<open>Properties\<close>

subsection \<open>The separator search\<close>

lemma IndexAny_lower: "- 1 \<le> IndexAny l cs"
  by (induction l) (auto simp: Let_def)

lemma IndexAny_none: "IndexAny l cs < 0 \<longleftrightarrow> \<not> list_ex (\<lambda>c. c \<in> set cs) l"
  using IndexAny_lower [of _ cs] by (induction l) (auto simp: Let_def)

lemma IndexAny_first:
  "0 \<le> IndexAny l cs \<Longrightarrow> nat (IndexAny l cs) = length (takeWhile (\<lambda>c. c \<notin> set cs) l)"
  by (induction l) (auto simp: Let_def nat_add_distrib split: if_splits)

lemma IndexAny_zero: "IndexAny l cs = 0 \<longleftrightarrow> l \<noteq> [] \<and> l ! 0 \<in> set cs"
  using IndexAny_lower [of "tl l" cs] by (cases l) (auto simp: Let_def)

lemma set_seps:
  "(\<lambda>c. c \<in> set ''=:'') = isSep" "(\<lambda>c. c \<notin> set ''=:'') = (\<lambda>c. \<not> isSep c)"
  by (auto simp: isSep_def fun_eq_iff)

text \<open>
  What the search finds on a non-empty line: the index is positive exactly when the line
  has a separator and does not start with one, and then the slices before and after the
  index are the text before the first separator and the text after it.
\<close>

lemma separator_split:
  assumes "l \<noteq> []"
  shows "(0 < IndexAny l ''=:'') = (\<not> (\<not> list_ex isSep l \<or> isSep (l ! 0)))"
    and "0 < IndexAny l ''=:'' \<Longrightarrow>
           take (nat (IndexAny l ''=:'')) l = takeWhile (\<lambda>c. \<not> isSep c) l"
    and "0 < IndexAny l ''=:'' \<Longrightarrow>
           drop (nat (IndexAny l ''=:'' + 1)) l = drop 1 (dropWhile (\<lambda>c. \<not> isSep c) l)"
proof -
  let ?i = "IndexAny l ''=:''"
  have none: "?i < 0 \<longleftrightarrow> \<not> list_ex isSep l"
    unfolding IndexAny_none set_seps ..
  have zero: "?i = 0 \<longleftrightarrow> isSep (l ! 0)"
    using assms unfolding IndexAny_zero by (simp add: isSep_def)
  show "(0 < ?i) = (\<not> (\<not> list_ex isSep l \<or> isSep (l ! 0)))"
    using none zero by linarith
  have len: "nat ?i = length (takeWhile (\<lambda>c. \<not> isSep c) l)" if "0 < ?i"
    using IndexAny_first [of l "''=:''"] that unfolding set_seps by simp
  show "take (nat ?i) l = takeWhile (\<lambda>c. \<not> isSep c) l" if "0 < ?i"
    using len [OF that] by (simp add: takeWhile_eq_take [symmetric])
  show "drop (nat (?i + 1)) l = drop 1 (dropWhile (\<lambda>c. \<not> isSep c) l)" if "0 < ?i"
  proof -
    have "drop (nat ?i) l = dropWhile (\<lambda>c. \<not> isSep c) l"
      using len [OF that] by (simp add: dropWhile_eq_drop)
    moreover have "nat (?i + 1) = 1 + nat ?i" using that by simp
    ultimately show ?thesis by (metis drop_drop)
  qed
qed

lemmas trim_defs = TrimSpace_def TrimRightSpace_def leadingWidth_def spaceRunes_def

subsection \<open>Lines of the option case\<close>

lemma read_line_option_case:
  assumes "optionCase l st"
  shows "read_line env l st =
     (if \<not> list_ex isSep l \<or> isSep (l ! 0) \<or> l ! 0 = CHR '' '' \<or> l ! 0 = CHR 0x09
      then (Some (ErrorString (''could not parse line: '' @ l)), st)
      else (None, st\<lparr>option := TrimSpace (takeWhile (\<lambda>c. \<not> isSep c) l),
             pconf := AddOption (section st) (TrimSpace (takeWhile (\<lambda>c. \<not> isSep c) l))
               (TrimSpace (drop 1 (dropWhile (\<lambda>c. \<not> isSep c) l))) (pconf st)\<rparr>))"
proof -
  have l: "l \<noteq> []" using assms by (simp add: optionCase_def)
  show ?thesis
  proof (cases "0 < IndexAny l ''=:''")
    case True
    then show ?thesis
      using assms separator_split [OF l]
      by (auto simp: read_line_def optionCase_def Let_def)
  next
    case False
    then show ?thesis
      using assms separator_split(1) [OF l]
      by (auto simp: read_line_def optionCase_def Let_def)
  qed
qed

lemma read_lineG_option_case:
  assumes "optionCase l st"
  shows "read_lineG env l st =
     (if \<not> list_ex isSep l \<or> isSep (l ! 0) \<or> l ! 0 = CHR '' '' \<or> l ! 0 = CHR 0x09
      then (Some (ErrorString (''could not parse line: '' @ l)), st)
      else (None, st\<lparr>option := TrimSpace (takeWhile (\<lambda>c. \<not> isSep c) l),
             pconf := AddOption (section st) (TrimSpace (takeWhile (\<lambda>c. \<not> isSep c) l))
               (TrimSpace (drop 1 (dropWhile (\<lambda>c. \<not> isSep c) l))) (pconf st)\<rparr>))"
proof -
  have l: "l \<noteq> []" using assms by (simp add: optionCase_def)
  show ?thesis
  proof (cases "0 < IndexAny l ''=:''")
    case True
    then show ?thesis
      using assms separator_split [OF l]
      by (auto simp: read_lineG_def optionCase_def Let_def)
  next
    case False
    then show ?thesis
      using assms separator_split(1) [OF l]
      by (auto simp: read_lineG_def optionCase_def Let_def)
  qed
qed

text \<open>
  Claim C5, as the code has it. A line that reaches the option case fails with the error
  \<open>could not parse line: l\<close> exactly when it has no separator \<open>=\<close> or \<open>:\<close>, or starts with
  a separator, or starts with a space or a tab. Otherwise the text before the first
  separator, trimmed, becomes the current option and is stored with the text after that
  separator, trimmed. This holds in both revisions.
\<close>

theorem option_line_outcome:
  assumes "optionCase l st" and "optionCase l stG"
  shows "read_line env l st =
           (if \<not> list_ex isSep l \<or> isSep (l ! 0) \<or> l ! 0 = CHR '' '' \<or> l ! 0 = CHR 0x09
            then (Some (ErrorString (''could not parse line: '' @ l)), st)
            else (None, st\<lparr>option := TrimSpace (takeWhile (\<lambda>c. \<not> isSep c) l),
                   pconf := AddOption (section st) (TrimSpace (takeWhile (\<lambda>c. \<not> isSep c) l))
                     (TrimSpace (drop 1 (dropWhile (\<lambda>c. \<not> isSep c) l))) (pconf st)\<rparr>)) \<and>
         read_lineG env l stG =
           (if \<not> list_ex isSep l \<or> isSep (l ! 0) \<or> l ! 0 = CHR '' '' \<or> l ! 0 = CHR 0x09
            then (Some (ErrorString (''could not parse line: '' @ l)), stG)
            else (None, stG\<lparr>option := TrimSpace (takeWhile (\<lambda>c. \<not> isSep c) l),
                   pconf := AddOption (section stG) (TrimSpace (takeWhile (\<lambda>c. \<not> isSep c) l))
                     (TrimSpace (drop 1 (dropWhile (\<lambda>c. \<not> isSep c) l))) (pconf stG)\<rparr>))"
  using read_line_option_case [OF assms(1)] read_lineG_option_case [OF assms(2)] by simp

text \<open>The line \<open>a = 1:2\<close> is stored as option \<open>a\<close> with the value \<open>1:2\<close>.\<close>

theorem option_line_outcome_witness:
  "optionCase ''a = 1:2'' (freshParser :: fileList parser) \<and>
   optionCase ''a = 1:2'' (freshParser :: fileListG parser) \<and>
   read_line sampleEnv ''a = 1:2'' freshParser =
     (None, freshParser\<lparr>option := ''a'', pconf := AddOption [] ''a'' ''1:2'' Map.empty\<rparr>) \<and>
   read_lineG sampleEnv ''a = 1:2'' freshParser =
     (None, freshParser\<lparr>option := ''a'', pconf := AddOption [] ''a'' ''1:2'' Map.empty\<rparr>)"
proof -
  have h: "optionCase ''a = 1:2'' (freshParser :: fileList parser)"
    by (simp add: optionCase_def freshParser_def)
  have hG: "optionCase ''a = 1:2'' (freshParser :: fileListG parser)"
    by (simp add: optionCase_def freshParser_def)
  show ?thesis
    using h hG option_line_outcome [OF h hG, of sampleEnv]
    by (simp add: isSep_def trim_defs freshParser_def)
qed

text \<open>
  Claim C5 as it is written fails on the line \<open>=x\<close>: the line reaches the option case, has
  a separator and does not start with white space, and is rejected all the same.
\<close>

theorem option_line_counterexample:
  "optionCase ''=x'' (freshParser :: fileList parser) \<and>
   list_ex isSep ''=x'' \<and> ''=x'' ! 0 \<noteq> CHR '' '' \<and> ''=x'' ! 0 \<noteq> CHR 0x09 \<and>
   read_line sampleEnv ''=x'' freshParser =
     (Some (ErrorString ''could not parse line: =x''), freshParser)"
  by (simp add: optionCase_def freshParser_def isSep_def read_line_def)

text \<open>
  Claim C10. A line whose first separator is at index 0 is rejected with the error
  \<open>could not parse line: l\<close>, in both revisions, although it has a separator.
\<close>

theorem separator_first_rejected:
  assumes "IndexAny l ''=:'' = 0"
  shows "read_line env l st = (Some (ErrorString (''could not parse line: '' @ l)), st) \<and>
         read_lineG env l stG = (Some (ErrorString (''could not parse line: '' @ l)), stG)"
proof -
  have "l \<noteq> []" and "l ! 0 = CHR ''='' \<or> l ! 0 = CHR '':''"
    using assms unfolding IndexAny_zero by auto
  then show ?thesis
    using assms by (auto simp: read_line_def read_lineG_def)
qed

theorem separator_first_rejected_witness:
  "IndexAny '': value'' ''=:'' = 0 \<and>
   read_line sampleEnv '': value'' freshParser =
     (Some (ErrorString ''could not parse line: : value''), freshParser) \<and>
   read_lineG sampleEnv '': value'' freshParser =
     (Some (ErrorString ''could not parse line: : value''), freshParser)"
proof -
  have h: "IndexAny '': value'' ''=:'' = 0" by simp
  show ?thesis
    using h separator_first_rejected [OF h, of sampleEnv freshParser freshParser] by simp
qed

subsection \<open>Section headers and continuation lines\<close>

lemma bracket_interior: "l \<noteq> [] \<Longrightarrow> drop 1 (take (length l - 1) l) = butlast (tl l)"
  by (simp add: butlast_conv_take drop_Suc drop_take tl_take butlast_tl [symmetric])

text \<open>
  Claim C7. A line that starts with \<open>[\<close> and ends with \<open>]\<close> makes the text between the
  brackets, trimmed, the current section, resets the current option to the empty string
  and calls \<open>AddSection\<close> with that name; no error is returned, and none when the same
  header is read again. This holds in both revisions.
\<close>

theorem section_header_line:
  assumes "l \<noteq> []" and "l ! 0 = CHR ''[''" and "l ! (length l - 1) = CHR '']''"
  shows "read_line env l st =
           (None, st\<lparr>option := [], section := TrimSpace (butlast (tl l)),
                      pconf := AddSection (TrimSpace (butlast (tl l))) (pconf st)\<rparr>) \<and>
         read_lineG env l stG =
           (None, stG\<lparr>option := [], section := TrimSpace (butlast (tl l)),
                       pconf := AddSection (TrimSpace (butlast (tl l))) (pconf stG)\<rparr>) \<and>
         fst (read_line env l (snd (read_line env l st))) = None \<and>
         fst (read_lineG env l (snd (read_lineG env l stG))) = None"
  using assms bracket_interior [OF assms(1)]
  by (simp add: read_line_def read_lineG_def Let_def)

theorem section_header_line_witness:
  "''[ My Section ]'' \<noteq> [] \<and> ''[ My Section ]'' ! 0 = CHR ''['' \<and>
   ''[ My Section ]'' ! (length ''[ My Section ]'' - 1) = CHR '']'' \<and>
   read_line sampleEnv ''[ My Section ]'' (freshParser\<lparr>option := ''foo''\<rparr>) =
     (None, freshParser\<lparr>option := [], section := ''My Section'',
                        pconf := AddSection ''My Section'' Map.empty\<rparr>)"
proof -
  have h: "''[ My Section ]'' \<noteq> []" "''[ My Section ]'' ! 0 = CHR ''[''"
    "''[ My Section ]'' ! (length ''[ My Section ]'' - 1) = CHR '']''"
    by simp_all
  show ?thesis
    using h section_header_line [OF h, of sampleEnv "freshParser\<lparr>option := ''foo''\<rparr>"]
    by (simp add: trim_defs freshParser_def)
qed

text \<open>
  Claim C6 as it is written fails: the continuation case needs a section, so the two
  lines \<open>foo: bar\<close> and \<open>  baz\<close> alone end in the error of the option case.
\<close>

theorem continuation_without_section_counterexample:
  "fst (Config_read sampleEnv (plainFile [''foo: bar'', ''  baz'']) Map.empty []) =
     Some (ErrorString ''could not parse line:   baz'') \<and>
   fst (Config_readG sampleEnv (plainFile [''foo: bar'', ''  baz'']) Map.empty []) =
     Some (ErrorString ''could not parse line:   baz'')"
  by (simp add: Config_read_def Config_readG_def plainFile_def sampleEnv_def read_line_def
      read_lineG_def trim_defs Let_def AddOption_def)

lemma RawString_AddOption: "RawString sec opt (AddOption sec opt v c) = (v, True)"
  by (simp add: RawString_def AddOption_def split: option.splits)

lemma AddOption_twice: "AddOption sec opt v (AddOption sec opt w c) = AddOption sec opt v c"
  by (auto simp: AddOption_def fun_eq_iff split: option.splits)

text \<open>
  Claim C6, as the code has it. With a section open, the lines \<open>foo: bar\<close> and \<open>  baz\<close>
  leave the option \<open>foo\<close> of that section with the raw value \<open>bar\<close>, a line feed, \<open>baz\<close>:
  the value read back from the store, a line feed and the trimmed continuation line.
  Comment stripping is assumed to leave the two lines as they are.
\<close>

theorem continuation_in_section:
  assumes "section st \<noteq> []" and "section stG \<noteq> []"
    and "stripComments env ''foo: bar'' = ''foo: bar''"
    and "stripComments env ''  baz'' = ''  baz''"
  shows "read_loop env [''foo: bar'', ''  baz''] st =
           (None, st\<lparr>option := ''foo'',
                      pconf := AddOption (section st) ''foo'' ''bar\<newline>baz'' (pconf st)\<rparr>) \<and>
         RawString (section st) ''foo''
           (pconf (snd (read_loop env [''foo: bar'', ''  baz''] st))) = (''bar\<newline>baz'', True) \<and>
         read_loopG env [''foo: bar'', ''  baz''] stG =
           (None, stG\<lparr>option := ''foo'',
                       pconf := AddOption (section stG) ''foo'' ''bar\<newline>baz'' (pconf stG)\<rparr>) \<and>
         RawString (section stG) ''foo''
           (pconf (snd (read_loopG env [''foo: bar'', ''  baz''] stG))) = (''bar\<newline>baz'', True)"
  using assms
  by (simp add: read_line_def read_lineG_def trim_defs Let_def RawString_AddOption AddOption_twice)

theorem continuation_in_section_witness:
  "section (freshParser\<lparr>section := ''s''\<rparr> :: fileList parser) \<noteq> [] \<and>
   section (freshParser\<lparr>section := ''s''\<rparr> :: fileListG parser) \<noteq> [] \<and>
   stripComments sampleEnv ''foo: bar'' = ''foo: bar'' \<and>
   stripComments sampleEnv ''  baz'' = ''  baz'' \<and>
   RawString ''s'' ''foo''
     (pconf (snd (read_loop sampleEnv [''foo: bar'', ''  baz''] (freshParser\<lparr>section := ''s''\<rparr>)))) =
     (''bar\<newline>baz'', True)"
proof -
  have h: "section (freshParser\<lparr>section := ''s''\<rparr> :: fileList parser) \<noteq> []"
    "section (freshParser\<lparr>section := ''s''\<rparr> :: fileListG parser) \<noteq> []"
    "stripComments sampleEnv ''foo: bar'' = ''foo: bar''"
    "stripComments sampleEnv ''  baz'' = ''  baz''"
    by (simp_all add: sampleEnv_def)
  show ?thesis
    using h continuation_in_section [OF h] by (simp del: read_loop.simps read_loopG.simps add: RawString_AddOption)
qed

subsection \<open>Resolving the path of a file\<close>

lemma pushFile_absolute:
  "IsAbs env path \<Longrightarrow>
   pushFile env path required lst =
     (None, if list_ex (\<lambda>file. Path file = path) lst then lst
            else lst @ [\<lparr>Path = path, Required = required, Read = False\<rparr>])"
  by (simp add: pushFile_def)

lemma pushFile_relative:
  "\<not> IsAbs env path \<Longrightarrow> lst \<noteq> [] \<Longrightarrow>
   Abs env (Join env (Dir env (Path (hd lst))) path) = Inr a \<Longrightarrow>
   pushFile env path required lst =
     (None, if list_ex (\<lambda>file. Path file = a) lst then lst
            else lst @ [\<lparr>Path = a, Required = required, Read = False\<rparr>])"
  by (simp add: pushFile_def hd_conv_nth)

lemma pushFile_first:
  "\<not> IsAbs env path \<Longrightarrow> Abs env path = Inr a \<Longrightarrow>
   pushFile env path required [] = (None, [\<lparr>Path = a, Required = required, Read = False\<rparr>])"
  by (simp add: pushFile_def)

lemma pushFileG_absolute:
  "IsAbs env path \<Longrightarrow>
   pushFileG env path lstG =
     (case (if reGlob path then Glob env path else Inr [path]) of
        Inl err \<Rightarrow> (Some err, lstG)
      | Inr candidates \<Rightarrow> (None, pushCandidates candidates lstG))"
  by (simp add: pushFileG_def)

lemma pushFileG_relative:
  "\<not> IsAbs env path \<Longrightarrow> lstG \<noteq> [] \<Longrightarrow>
   Abs env (Join env (Dir env (PathG (hd lstG))) path) = Inr a \<Longrightarrow>
   pushFileG env path lstG =
     (case (if reGlob a then Glob env a else Inr [a]) of
        Inl err \<Rightarrow> (Some err, lstG)
      | Inr candidates \<Rightarrow> (None, pushCandidates candidates lstG))"
  by (simp add: pushFileG_def hd_conv_nth)

lemma pushFileG_first:
  "\<not> IsAbs env path \<Longrightarrow> Abs env path = Inr a \<Longrightarrow>
   pushFileG env path [] =
     (case (if reGlob a then Glob env a else Inr [a]) of
        Inl err \<Rightarrow> (Some err, [])
      | Inr candidates \<Rightarrow> (None, pushCandidates candidates []))"
  by (simp add: pushFileG_def)

text \<open>
  Claim C8. An absolute path is used as it is. A path that is not absolute is joined to
  the directory of the first entry of the list when the list is not empty, and is passed
  to \<^verbatim>\<open>filepath.Abs\<close> alone, which resolves it against the working directory, when the
  list is empty. The resolved path is what \<^verbatim>\<open>pushFile\<close> looks up and appends in the first
  revision, and what it expands to candidates in the glob revision.
\<close>

theorem path_resolution:
  "(IsAbs env path \<longrightarrow>
      pushFile env path required lst =
        (None, if list_ex (\<lambda>file. Path file = path) lst then lst
               else lst @ [\<lparr>Path = path, Required = required, Read = False\<rparr>]) \<and>
      pushFileG env path lstG =
        (case (if reGlob path then Glob env path else Inr [path]) of
           Inl err \<Rightarrow> (Some err, lstG)
         | Inr candidates \<Rightarrow> (None, pushCandidates candidates lstG))) \<and>
   (\<not> IsAbs env path \<and> lst \<noteq> [] \<and>
    Abs env (Join env (Dir env (Path (hd lst))) path) = Inr a \<longrightarrow>
      pushFile env path required lst =
        (None, if list_ex (\<lambda>file. Path file = a) lst then lst
               else lst @ [\<lparr>Path = a, Required = required, Read = False\<rparr>])) \<and>
   (\<not> IsAbs env path \<and> lstG \<noteq> [] \<and>
    Abs env (Join env (Dir env (PathG (hd lstG))) path) = Inr a \<longrightarrow>
      pushFileG env path lstG =
        (case (if reGlob a then Glob env a else Inr [a]) of
           Inl err \<Rightarrow> (Some err, lstG)
         | Inr candidates \<Rightarrow> (None, pushCandidates candidates lstG))) \<and>
   (\<not> IsAbs env path \<and> Abs env path = Inr a \<longrightarrow>
      pushFile env path required [] =
        (None, [\<lparr>Path = a, Required = required, Read = False\<rparr>]) \<and>
      pushFileG env path [] =
        (case (if reGlob a then Glob env a else Inr [a]) of
           Inl err \<Rightarrow> (Some err, [])
         | Inr candidates \<Rightarrow> (None, pushCandidates candidates [])))"
  by (intro conjI impI; (elim conjE)?;
      (rule pushFile_absolute pushFile_relative pushFile_first
         pushFileG_absolute pushFileG_relative pushFileG_first; assumption))

theorem path_resolution_witness:
  "IsAbs sampleEnv ''/opt/b.cfg'' \<and>
   pushFile sampleEnv ''/opt/b.cfg'' False mainOnly =
     (None, mainOnly @ [\<lparr>Path = ''/opt/b.cfg'', Required = False, Read = False\<rparr>]) \<and>
   pushFileG sampleEnv ''/opt/b.cfg'' mainOnlyG =
     (None, mainOnlyG @ [\<lparr>PathG = ''/opt/b.cfg'', ReadG = False\<rparr>]) \<and>
   \<not> IsAbs sampleEnv ''extra.cfg'' \<and> mainOnly \<noteq> [] \<and> mainOnlyG \<noteq> [] \<and>
   Abs sampleEnv (Join sampleEnv (Dir sampleEnv (Path (hd mainOnly))) ''extra.cfg'') =
     Inr ''/etc/extra.cfg'' \<and>
   Abs sampleEnv (Join sampleEnv (Dir sampleEnv (PathG (hd mainOnlyG))) ''extra.cfg'') =
     Inr ''/etc/extra.cfg'' \<and>
   pushFile sampleEnv ''extra.cfg'' False mainOnly =
     (None, mainOnly @ [\<lparr>Path = ''/etc/extra.cfg'', Required = False, Read = False\<rparr>]) \<and>
   pushFileG sampleEnv ''extra.cfg'' mainOnlyG =
     (None, mainOnlyG @ [\<lparr>PathG = ''/etc/extra.cfg'', ReadG = False\<rparr>]) \<and>
   Abs sampleEnv ''extra.cfg'' = Inr ''/cwd/extra.cfg'' \<and>
   pushFile sampleEnv ''extra.cfg'' True [] =
     (None, [\<lparr>Path = ''/cwd/extra.cfg'', Required = True, Read = False\<rparr>]) \<and>
   pushFileG sampleEnv ''extra.cfg'' [] =
     (None, [\<lparr>PathG = ''/cwd/extra.cfg'', ReadG = False\<rparr>])"
proof -
  have abs: "IsAbs sampleEnv ''/opt/b.cfg''"
    and rel: "\<not> IsAbs sampleEnv ''extra.cfg''" "mainOnly \<noteq> []" "mainOnlyG \<noteq> []"
    and res: "Abs sampleEnv (Join sampleEnv (Dir sampleEnv (Path (hd mainOnly))) ''extra.cfg'') =
       Inr ''/etc/extra.cfg''"
      "Abs sampleEnv (Join sampleEnv (Dir sampleEnv (PathG (hd mainOnlyG))) ''extra.cfg'') =
       Inr ''/etc/extra.cfg''"
    and cwd: "Abs sampleEnv ''extra.cfg'' = Inr ''/cwd/extra.cfg''"
    by (simp_all add: sampleEnv_def mainOnly_def mainOnlyG_def)
  show ?thesis
    using abs rel res cwd
      path_resolution [of sampleEnv "''/opt/b.cfg''" False mainOnly mainOnlyG]
      path_resolution [of sampleEnv "''extra.cfg''" False mainOnly mainOnlyG "''/etc/extra.cfg''"]
      path_resolution [of sampleEnv "''extra.cfg''" True mainOnly mainOnlyG "''/cwd/extra.cfg''"]
    by (simp add: reGlob_def mainOnly_def mainOnlyG_def)
qed

text \<open>
  Claim C4 does not hold of the glob revision. The pattern expands to \<open>x.cfg\<close> and
  \<open>y.cfg\<close>; \<open>x.cfg\<close> is in the list, so \<^verbatim>\<open>pushFile\<close> returns at once and \<open>y.cfg\<close>, which
  is not in the list, is never appended.
\<close>

theorem glob_stops_at_duplicate:
  "pushFileG sampleEnv ''sub/*.cfg''
     [\<lparr>PathG = ''/etc/main.cfg'', ReadG = True\<rparr>, \<lparr>PathG = ''/etc/sub/x.cfg'', ReadG = False\<rparr>] =
     (None, [\<lparr>PathG = ''/etc/main.cfg'', ReadG = True\<rparr>,
             \<lparr>PathG = ''/etc/sub/x.cfg'', ReadG = False\<rparr>]) \<and>
   Glob sampleEnv ''/etc/sub/*.cfg'' = Inr [''/etc/sub/x.cfg'', ''/etc/sub/y.cfg'']"
  by (simp add: pushFileG_def sampleEnv_def reGlob_def)

subsection \<open>Reading a file that cannot be opened\<close>





subsection \<open>The list only grows\<close>

lemma extends_refl: "extends l l"
  by (simp add: extends_def)

lemma extends_length: "extends l l' \<Longrightarrow> length l \<le> length l'"
proof -
  assume "extends l l'"
  then have "length (take (length l) l') = length l" by (simp add: extends_def)
  then show ?thesis by simp
qed

lemma extends_append: "extends l l' \<Longrightarrow> \<exists>new. l' = l @ new \<and> list_all (\<lambda>f. \<not> Read f) new"
proof -
  assume e: "extends l l'"
  then have "l' = l @ drop (length l) l'"
    using append_take_drop_id [of "length l" l'] by (simp add: extends_def)
  then show ?thesis using e unfolding extends_def by blast
qed

lemma extends_appendI: "list_all (\<lambda>f. \<not> Read f) new \<Longrightarrow> extends l (l @ new)"
  by (simp add: extends_def)

lemma extends_trans: "extends l l' \<Longrightarrow> extends l' l'' \<Longrightarrow> extends l l''"
proof -
  assume "extends l l'" "extends l' l''"
  then obtain n1 n2 where "l' = l @ n1" "l'' = l' @ n2"
    "list_all (\<lambda>f. \<not> Read f) n1" "list_all (\<lambda>f. \<not> Read f) n2"
    using extends_append by blast
  then show ?thesis by (simp add: extends_def)
qed

lemma extends_nth: "extends l l' \<Longrightarrow> i < length l \<Longrightarrow> l' ! i = l ! i"
proof -
  assume "extends l l'" and i: "i < length l"
  then have "take (length l) l' ! i = l ! i" by (simp add: extends_def)
  then show ?thesis using i by simp
qed

lemma extends_readCount: "extends l l' \<Longrightarrow> readCount l' = readCount l"
proof -
  assume "extends l l'"
  then obtain new where n: "l' = l @ new" "list_all (\<lambda>f. \<not> Read f) new"
    using extends_append by blast
  then have "filter Read new = []" by (simp add: list_all_iff filter_empty_conv)
  then show ?thesis using n by (simp add: readCount_def)
qed

lemma readCount_mark:
  "i < length l \<Longrightarrow> \<not> Read (l ! i) \<Longrightarrow> readCount (l[i := (l ! i)\<lparr>Read := True\<rparr>]) = Suc (readCount l)"
proof (induction l arbitrary: i)
  case Nil
  then show ?case by simp
next
  case (Cons f l)
  then show ?case by (cases i) (auto simp: readCount_def)
qed

lemma paths_mark: "map Path (l[i := (l ! i)\<lparr>Read := True\<rparr>]) = map Path l"
proof (induction l arbitrary: i)
  case Nil
  then show ?case by simp
next
  case (Cons f l)
  then show ?case by (cases i) simp_all
qed

lemma pushFile_resolve:
  "pushFile env path required lst =
     (case resolvePath env (rootOf lst) path of
        Inl err \<Rightarrow> (Some err, lst)
      | Inr a \<Rightarrow> (None, if a \<in> Path ` set lst then lst
                        else lst @ [\<lparr>Path = a, Required = required, Read = False\<rparr>]))"
proof -
  have ex: "list_ex (\<lambda>file. Path file = a) lst \<longleftrightarrow> a \<in> Path ` set lst" for a
    by (auto simp: list_ex_iff)
  have r: "(if \<not> IsAbs env path
            then Abs env (if length lst > 0 then Join env (Dir env (Path (lst ! 0))) path
                          else path)
            else Inr path) = resolvePath env (rootOf lst) path"
    by (simp add: resolvePath_def rootOf_def)
  show ?thesis
    unfolding pushFile_def r ex by (cases "resolvePath env (rootOf lst) path") simp_all
qed

lemma pushFile_cases:
  "snd (pushFile env path required lst) = lst \<or>
   (\<exists>a. resolvePath env (rootOf lst) path = Inr a \<and> a \<notin> Path ` set lst \<and>
        snd (pushFile env path required lst) = lst @ [\<lparr>Path = a, Required = required, Read = False\<rparr>])"
  unfolding pushFile_resolve by (auto split: sum.splits)

lemma pushFile_extends: "extends lst (snd (pushFile env path required lst))"
  using pushFile_cases [of env path required lst]
  by (auto simp: extends_refl intro!: extends_appendI)

lemma pushFile_distinct:
  "distinct (map Path lst) \<Longrightarrow> distinct (map Path (snd (pushFile env path required lst)))"
  using pushFile_cases [of env path required lst] by auto

lemma read_line_plist:
  "plist (snd (read_line env l st)) = plist st \<or>
   (\<exists>m r. (findDirective ''#include'' l = Some m \<or> findDirective ''#require'' l = Some m) \<and>
          plist (snd (read_line env l st)) = snd (pushFile env m r (plist st)))"
  by (auto simp: read_line_def Let_def includeFile_def requireFile_def split: option.splits)

lemma read_loop_preserves:
  assumes "\<And>m r l. m \<in> set (directives env ts) \<Longrightarrow> Q l \<Longrightarrow> Q (snd (pushFile env m r l))"
    and "Q (plist st)"
  shows "Q (plist (snd (read_loop env ts st)))"
  using assms
proof (induction ts arbitrary: st)
  case Nil
  then show ?case by simp
next
  case (Cons t ts)
  let ?l = "TrimRightSpace (stripComments env t)"
  obtain e st1 where r: "read_line env ?l st = (e, st1)" by (cases "read_line env ?l st")
  have "Q (plist st1)"
  proof -
    from read_line_plist [of env ?l st] r
    consider "plist st1 = plist st"
      | m r where "findDirective ''#include'' ?l = Some m \<or> findDirective ''#require'' ?l = Some m"
          "plist st1 = snd (pushFile env m r (plist st))"
      by auto
    then show ?thesis
    proof cases
      case 1
      then show ?thesis using Cons.prems(2) by simp
    next
      case 2
      then have "m \<in> set (directives env (t # ts))"
        by (auto simp: directives_def Let_def split: option.splits)
      then show ?thesis using Cons.prems 2 by simp
    qed
  qed
  moreover have "\<And>m r l. m \<in> set (directives env ts) \<Longrightarrow> Q l \<Longrightarrow> Q (snd (pushFile env m r l))"
    using Cons.prems(1) by (simp add: directives_def)
  ultimately have "Q (plist (snd (read_loop env ts st1)))"
    using Cons.IH by blast
  then show ?case using r \<open>Q (plist st1)\<close> by (cases e) simp_all
qed

lemma priv_readFile_opened:
  "opened (snd (priv_readFile env fname req st)) = opened st @ [fname]"
proof (cases "Open env fname")
  case (Inl err)
  then show ?thesis by (simp add: priv_readFile_def Let_def)
next
  case (Inr f)
  obtain e c l where "Config_read env f (conf st) (files st) = (e, c, l)"
    by (cases "Config_read env f (conf st) (files st)")
  then show ?thesis
    using Inr by (cases e) (simp_all add: priv_readFile_def Let_def)
qed

lemma priv_readFile_preserves:
  assumes "\<And>f m r l. Open env fname = Inr f \<Longrightarrow> m \<in> set (directives env (scanned f)) \<Longrightarrow>
             Q l \<Longrightarrow> Q (snd (pushFile env m r l))"
    and "Q (files st)"
  shows "Q (files (snd (priv_readFile env fname req st)))"
proof (cases "Open env fname")
  case (Inl err)
  then show ?thesis using assms(2) by (simp add: priv_readFile_def Let_def)
next
  case (Inr f)
  let ?p = "\<lparr>section = [], option = [], pconf = conf st, plist = files st\<rparr>"
  obtain e p where r: "read_loop env (scanned f) ?p = (e, p)"
    by (cases "read_loop env (scanned f) ?p")
  have "Q (plist (snd (read_loop env (scanned f) ?p)))"
    by (rule read_loop_preserves) (use assms Inr in simp_all)
  then show ?thesis
    using Inr r
    by (cases e; cases "scanErr f") (simp_all add: priv_readFile_def Config_read_def Let_def)
qed

lemma priv_readFile_extends: "extends (files st) (files (snd (priv_readFile env fname req st)))"
proof (rule priv_readFile_preserves [where Q = "extends (files st)"])
  show "extends (files st) (files st)" by (rule extends_refl)
next
  fix m r l
  assume "extends (files st) l"
  then show "extends (files st) (snd (pushFile env m r l))"
    using pushFile_extends extends_trans by blast
qed

lemma priv_readFile_distinct:
  "distinct (map Path (files st)) \<Longrightarrow>
   distinct (map Path (files (snd (priv_readFile env fname req st))))"
  by (rule priv_readFile_preserves [where Q = "\<lambda>l. distinct (map Path l)"])
     (simp_all add: pushFile_distinct)

subsection \<open>Rules for a pass and for the load\<close>

lemma passLoop_rule:
  assumes ok: "\<And>s j s'. P s \<Longrightarrow> j < length (files s) \<Longrightarrow> \<not> Read (files s ! j) \<Longrightarrow>
             priv_readFile env (Path (files s ! j)) (Required (files s ! j)) s = (None, s') \<Longrightarrow>
             P (s'\<lparr>files := (files s')[j := (files s' ! j)\<lparr>Read := True\<rparr>]\<rparr>)"
    and err: "\<And>s j s' x. P s \<Longrightarrow> j < length (files s) \<Longrightarrow> \<not> Read (files s ! j) \<Longrightarrow>
             priv_readFile env (Path (files s ! j)) (Required (files s ! j)) s = (Some x, s') \<Longrightarrow>
             E x s'"
    and "P st" and "i + k \<le> length (files st)"
    and "passLoop env k i h st = (e, h', st')"
  shows "case e of None \<Rightarrow> P st' | Some x \<Rightarrow> E x st'"
  using assms(3-)
proof (induction k arbitrary: i h st)
  case 0
  then show ?case by simp
next
  case (Suc k)
  show ?case
  proof (cases "Read (files st ! i)")
    case True
    then have "passLoop env k (i + 1) h st = (e, h', st')"
      using Suc.prems(3) by simp
    then show ?thesis
      using Suc.IH [of st "i + 1" h] Suc.prems(1,2) by simp
  next
    case False
    obtain e1 s1 where
      r: "priv_readFile env (Path (files st ! i)) (Required (files st ! i)) st = (e1, s1)"
      by (cases "priv_readFile env (Path (files st ! i)) (Required (files st ! i)) st")
    have i: "i < length (files st)" using Suc.prems(2) by simp
    show ?thesis
    proof (cases e1)
      case None
      let ?s2 = "s1\<lparr>files := (files s1)[i := (files s1 ! i)\<lparr>Read := True\<rparr>]\<rparr>"
      have P2: "P ?s2"
        using ok [OF Suc.prems(1) i False] r None by simp
      have "extends (files st) (files s1)"
        using priv_readFile_extends [of st env "Path (files st ! i)" "Required (files st ! i)"] r
        by simp
      then have len: "i + 1 + k \<le> length (files ?s2)"
        using extends_length Suc.prems(2) by fastforce
      have "passLoop env k (i + 1) True ?s2 = (e, h', st')"
        using Suc.prems(3) False r None by simp
      then show ?thesis
        using Suc.IH [of ?s2 "i + 1" True] P2 len by simp
    next
      case (Some x)
      then have "e = Some x" "st' = s1"
        using Suc.prems(3) False r by simp_all
      then show ?thesis
        using err [OF Suc.prems(1) i False] r Some by simp
    qed
  qed
qed

lemma passLoop_flag_kept: "passLoop env k i True st = (e, h', st') \<Longrightarrow> h'"
proof (induction k arbitrary: i st)
  case 0
  then show ?case by simp
next
  case (Suc k)
  then show ?case
    by (auto split: if_splits prod.splits option.splits)
qed

lemma passLoop_nothing_unread:
  "passLoop env k i False st = (None, False, st') \<Longrightarrow>
   st' = st \<and> (\<forall>j<k. Read (files st ! (i + j)))"
proof (induction k arbitrary: i)
  case 0
  then show ?case by simp
next
  case (Suc k)
  show ?case
  proof (cases "Read (files st ! i)")
    case True
    then have "passLoop env k (Suc i) False st = (None, False, st')"
      using Suc.prems by simp
    then have "st' = st" and *: "\<forall>j<k. Read (files st ! (Suc i + j))"
      using Suc.IH by blast+
    have "Read (files st ! (i + j))" if "j < Suc k" for j
      using that True * by (cases j) simp_all
    then show ?thesis using \<open>st' = st\<close> by blast
  next
    case False
    then show ?thesis
      using Suc.prems passLoop_flag_kept
      by (fastforce split: prod.splits option.splits)
  qed
qed

lemma priv_read_rule:
  assumes run: "priv_read env st = Some (e, st')" and "P st"
    and ok: "\<And>s j s'. P s \<Longrightarrow> j < length (files s) \<Longrightarrow> \<not> Read (files s ! j) \<Longrightarrow>
             priv_readFile env (Path (files s ! j)) (Required (files s ! j)) s = (None, s') \<Longrightarrow>
             P (s'\<lparr>files := (files s')[j := (files s' ! j)\<lparr>Read := True\<rparr>]\<rparr>)"
    and err: "\<And>s j s' x. P s \<Longrightarrow> j < length (files s) \<Longrightarrow> \<not> Read (files s ! j) \<Longrightarrow>
             priv_readFile env (Path (files s ! j)) (Required (files s ! j)) s = (Some x, s') \<Longrightarrow>
             E x s'"
  shows "case e of None \<Rightarrow> P st' \<and> list_all Read (files st') | Some x \<Rightarrow> E x st'"
proof -
  have "env' = env \<longrightarrow> P s \<longrightarrow>
        (case fst r of None \<Rightarrow> P (snd r) \<and> list_all Read (files (snd r)) | Some x \<Rightarrow> E x (snd r))"
    if run': "priv_read env' s = Some r" for env' s r
  proof (rule priv_read.raw_induct
      [where P = "\<lambda>env' s r. env' = env \<longrightarrow> P s \<longrightarrow>
         (case fst r of None \<Rightarrow> P (snd r) \<and> list_all Read (files (snd r))
          | Some x \<Rightarrow> E x (snd r))", OF _ run'])
    fix rec env' s r
    assume IH: "\<And>env' s r. rec env' s = Some r \<Longrightarrow> env' = env \<longrightarrow> P s \<longrightarrow>
         (case fst r of None \<Rightarrow> P (snd r) \<and> list_all Read (files (snd r))
          | Some x \<Rightarrow> E x (snd r))"
      and hyp: "(case passLoop env' (length (files s)) 0 False s of
          (None, h, st') \<Rightarrow> if h then rec env' st' else Some (None, st')
        | (Some err, h, st') \<Rightarrow> Some (Some err, st')) = Some r"
    show "env' = env \<longrightarrow> P s \<longrightarrow>
         (case fst r of None \<Rightarrow> P (snd r) \<and> list_all Read (files (snd r))
          | Some x \<Rightarrow> E x (snd r))"
    proof (intro impI)
      assume env: "env' = env" and P: "P s"
      obtain e1 h1 s1 where p: "passLoop env (length (files s)) 0 False s = (e1, h1, s1)"
        by (cases "passLoop env (length (files s)) 0 False s")
      have post: "case e1 of None \<Rightarrow> P s1 | Some x \<Rightarrow> E x s1"
        by (rule passLoop_rule [where P = P and E = E, OF ok err P _ p]) simp_all
      show "case fst r of None \<Rightarrow> P (snd r) \<and> list_all Read (files (snd r))
            | Some x \<Rightarrow> E x (snd r)"
      proof (cases e1)
        case (Some x)
        then have "r = (Some x, s1)" using hyp p env by simp
        then show ?thesis using post Some by simp
      next
        case None
        show ?thesis
        proof (cases h1)
          case True
          then have "rec env s1 = Some r" using hyp p env None by simp
          then show ?thesis using IH post None by simp
        next
          case False
          then have r: "r = (None, s1)" using hyp p env None by simp
          have "passLoop env (length (files s)) 0 False s = (None, False, s1)"
            using p None False by simp
          then have "s1 = s \<and> (\<forall>j<length (files s). Read (files s ! (0 + j)))"
            by (rule passLoop_nothing_unread)
          then have "list_all Read (files s1)" by (simp add: list_all_length)
          then show ?thesis using r post None by simp
        qed
      qed
    qed
  qed
  from this [OF run] show ?thesis using assms(2) by (cases e) simp_all
qed

subsection \<open>Invariants of the list\<close>

lemma evolves_nth:
  "evolves l l' \<longleftrightarrow>
     length l \<le> length l' \<and>
     (\<forall>i<length l. Path (l' ! i) = Path (l ! i) \<and> Required (l' ! i) = Required (l ! i) \<and>
                    (Read (l ! i) \<longrightarrow> Read (l' ! i)))"
  by (auto simp: evolves_def list_all2_conv_all_nth)

lemma evolves_refl: "evolves l l"
  by (simp add: evolves_nth)

lemma evolves_extends: "evolves l0 l \<Longrightarrow> extends l l' \<Longrightarrow> evolves l0 l'"
proof -
  assume a: "evolves l0 l" "extends l l'"
  then have "length l \<le> length l'" and "\<And>i. i < length l \<Longrightarrow> l' ! i = l ! i"
    using extends_length extends_nth by blast+
  then show ?thesis using a(1) by (auto simp: evolves_nth)
qed

lemma evolves_mark: "evolves l0 l \<Longrightarrow> evolves l0 (l[j := (l ! j)\<lparr>Read := True\<rparr>])"
  by (cases "j < length l") (auto simp: evolves_nth nth_list_update list_update_beyond)

lemma count_list_distinct: "distinct xs \<Longrightarrow> x \<in> set xs \<Longrightarrow> count_list xs x = 1"
  by (induction xs) auto

lemma openedOnce_step:
  assumes J: "openedOnce s" and j: "j < length (files s)" and u: "\<not> Read (files s ! j)"
    and r: "priv_readFile env (Path (files s ! j)) (Required (files s ! j)) s = (e, s')"
  shows "openedOnce (s'\<lparr>files := (files s')[j := (files s' ! j)\<lparr>Read := True\<rparr>]\<rparr>)"
    and "distinct (opened s') \<and> distinct (map Path (files s'))"
proof -
  let ?p = "Path (files s ! j)"
  have ext: "extends (files s) (files s')"
    using priv_readFile_extends [of s env ?p "Required (files s ! j)"] r by simp
  have dis: "distinct (map Path (files s'))"
    using priv_readFile_distinct [of s env ?p "Required (files s ! j)"] r J
    by (simp add: openedOnce_def)
  have op: "opened s' = opened s @ [?p]"
    using priv_readFile_opened [of env ?p "Required (files s ! j)" s] r by simp
  have len: "length (files s) \<le> length (files s')" using ext by (rule extends_length)
  have same: "files s' ! k = files s ! k" if "k < length (files s)" for k
    using ext that by (rule extends_nth)
  obtain new where new: "files s' = files s @ new" "list_all (\<lambda>f. \<not> Read f) new"
    using ext extends_append by blast
  have notin: "?p \<notin> set (opened s)"
    using J j u by (auto simp: openedOnce_def)
  show d: "distinct (opened s') \<and> distinct (map Path (files s'))"
    using J notin op dis by (simp add: openedOnce_def)
  have inj: "Path (files s' ! k) = Path (files s' ! j) \<Longrightarrow> k = j" if "k < length (files s')" for k
    using dis that j len
    by (metis (no_types, lifting) distinct_conv_nth length_map nth_map order.strict_trans2)
  have newpath: "Path (files s' ! k) \<notin> set (opened s)"
    if "length (files s) \<le> k" "k < length (files s')" for k
  proof
    assume "Path (files s' ! k) \<in> set (opened s)"
    then have "Path (files s' ! k) \<in> Path ` set (files s)"
      using J by (auto simp: openedOnce_def)
    then obtain i where i: "i < length (files s)" "Path (files s ! i) = Path (files s' ! k)"
      by (auto simp: in_set_conv_nth)
    then have "Path (files s' ! i) = Path (files s' ! k)" using same by simp
    moreover have "i < length (files s')" "i \<noteq> k" using i that len by simp_all
    ultimately show False
      using dis that(2)
      by (metis (no_types, lifting) distinct_conv_nth length_map nth_map)
  qed
  have unread_new: "\<not> Read (files s' ! k)"
    if "length (files s) \<le> k" "k < length (files s')" for k
    using that new by (auto simp: nth_append list_all_length)
  show "openedOnce (s'\<lparr>files := (files s')[j := (files s' ! j)\<lparr>Read := True\<rparr>]\<rparr>)"
    unfolding openedOnce_def
  proof (intro conjI allI impI)
    show "distinct (map Path (files (s'\<lparr>files := (files s')[j := (files s' ! j)\<lparr>Read := True\<rparr>]\<rparr>)))"
      using dis by (simp add: paths_mark)
    show "distinct (opened (s'\<lparr>files := (files s')[j := (files s' ! j)\<lparr>Read := True\<rparr>]\<rparr>))"
      using d by simp
    have "set (opened s') \<subseteq> set (map Path (files s'))"
      using J op j same [OF j] new len by (auto simp: openedOnce_def)
    then show "set (opened (s'\<lparr>files := (files s')[j := (files s' ! j)\<lparr>Read := True\<rparr>]\<rparr>))
        \<subseteq> Path ` set (files (s'\<lparr>files := (files s')[j := (files s' ! j)\<lparr>Read := True\<rparr>]\<rparr>))"
      using paths_mark [of "files s'" j] by (metis loader.select_convs(2) loader.select_convs(3) loader.surjective loader.update_convs(2) set_map)
  next
    fix k
    assume k: "k < length (files (s'\<lparr>files := (files s')[j := (files s' ! j)\<lparr>Read := True\<rparr>]\<rparr>))"
    then have k': "k < length (files s')" by simp
    show "Read (files (s'\<lparr>files := (files s')[j := (files s' ! j)\<lparr>Read := True\<rparr>]\<rparr>) ! k) \<longleftrightarrow>
          Path (files (s'\<lparr>files := (files s')[j := (files s' ! j)\<lparr>Read := True\<rparr>]\<rparr>) ! k)
            \<in> set (opened (s'\<lparr>files := (files s')[j := (files s' ! j)\<lparr>Read := True\<rparr>]\<rparr>))"
    proof (cases "k = j")
      case True
      then show ?thesis using k' op same [OF j] by simp
    next
      case False
      then have ne: "Path (files s' ! k) \<noteq> ?p" using inj [OF k'] same [OF j] by auto
      show ?thesis
      proof (cases "k < length (files s)")
        case True
        then show ?thesis
          using False k' op ne same [OF True] J by (simp add: openedOnce_def)
      next
        case False
        then show ?thesis
          using \<open>k \<noteq> j\<close> k' op ne newpath [of k] unread_new [of k] by simp
      qed
    qed
  qed
qed

lemma priv_read_evolves:
  assumes "priv_read env st = Some (e, st')"
  shows "evolves (files st) (files st') \<and>
         (distinct (map Path (files st)) \<longrightarrow> distinct (map Path (files st')))"
proof -
  let ?P = "\<lambda>s. evolves (files st) (files s) \<and>
         (distinct (map Path (files st)) \<longrightarrow> distinct (map Path (files s)))"
  have step: "?P s'" if "?P s" "priv_readFile env p r s = (x, s')" for s p r x s'
  proof -
    have "extends (files s) (files s')"
      using priv_readFile_extends [of s env p r] that(2) by simp
    moreover have "distinct (map Path (files s)) \<Longrightarrow> distinct (map Path (files s'))"
      using priv_readFile_distinct [of s env p r] that(2) by simp
    ultimately show ?thesis using that(1) evolves_extends by blast
  qed
  have "case e of None \<Rightarrow> ?P st' \<and> list_all Read (files st') | Some x \<Rightarrow> ?P st'"
  proof (rule priv_read_rule [where P = ?P and E = "\<lambda>x. ?P", OF assms])
    show "?P st" by (simp add: evolves_refl)
  next
    fix s j s'
    assume "?P s" "priv_readFile env (Path (files s ! j)) (Required (files s ! j)) s = (None, s')"
    then have "?P s'" by (rule step)
    then show "?P (s'\<lparr>files := (files s')[j := (files s' ! j)\<lparr>Read := True\<rparr>]\<rparr>)"
      by (simp add: evolves_mark paths_mark)
  next
    fix s j s' x
    assume "?P s" "priv_readFile env (Path (files s ! j)) (Required (files s ! j)) s = (Some x, s')"
    then show "?P s'" by (rule step)
  qed
  then show ?thesis by (cases e) simp_all
qed

text \<open>
  Claim C9, as the code has it, with the path of an entry being the string that
  \<^verbatim>\<open>pushFile\<close> stores and compares, which need not be a canonical form.
  \<^verbatim>\<open>pushFile\<close> keeps the paths of the list distinct, and its result is the list it
  was given followed by at most one new unread entry. A load that returns keeps the paths
  distinct as well, leaves every entry of the list it started with at its place, with its
  path and its \<^verbatim>\<open>Required\<close> flag, and never takes the \<^verbatim>\<open>Read\<close> flag of an entry back: the flag
  goes from false to true and stays.
\<close>

theorem worklist_invariants:
  "extends lst (snd (pushFile env path required lst)) \<and>
   (distinct (map Path lst) \<longrightarrow> distinct (map Path (snd (pushFile env path required lst)))) \<and>
   (priv_read env st = Some (e, st') \<longrightarrow>
      evolves (files st) (files st') \<and>
      (distinct (map Path (files st)) \<longrightarrow> distinct (map Path (files st'))))"
  using pushFile_extends pushFile_distinct priv_read_evolves by blast

text \<open>The load of the sample, in which two files include each other.\<close>

theorem worklist_invariants_witness:
  "distinct (map Path mainOnly) \<and>
   extends mainOnly (snd (pushFile sampleEnv ''extra.cfg'' False mainOnly)) \<and>
   distinct (map Path (snd (pushFile sampleEnv ''extra.cfg'' False mainOnly))) \<and>
   priv_read sampleEnv (loaderOf mainOnly) =
     Some (None, snd (the (priv_read sampleEnv (loaderOf mainOnly)))) \<and>
   evolves mainOnly (files (snd (the (priv_read sampleEnv (loaderOf mainOnly))))) \<and>
   distinct (map Path (files (snd (the (priv_read sampleEnv (loaderOf mainOnly)))))) \<and>
   map_option (files \<circ> snd) (priv_read sampleEnv (loaderOf mainOnly)) =
     Some [\<lparr>Path = ''/etc/main.cfg'', Required = True, Read = True\<rparr>,
           \<lparr>Path = ''/etc/extra.cfg'', Required = False, Read = True\<rparr>,
           \<lparr>Path = ''/etc/missing.cfg'', Required = False, Read = True\<rparr>]"
proof -
  have d: "distinct (map Path mainOnly)" by (simp add: mainOnly_def)
  have c: "map_option (files \<circ> snd) (priv_read sampleEnv (loaderOf mainOnly)) =
     Some [\<lparr>Path = ''/etc/main.cfg'', Required = True, Read = True\<rparr>,
           \<lparr>Path = ''/etc/extra.cfg'', Required = False, Read = True\<rparr>,
           \<lparr>Path = ''/etc/missing.cfg'', Required = False, Read = True\<rparr>]"
    by code_simp
  have "map_option fst (priv_read sampleEnv (loaderOf mainOnly)) = Some None"
    by code_simp
  then have run: "priv_read sampleEnv (loaderOf mainOnly) =
     Some (None, snd (the (priv_read sampleEnv (loaderOf mainOnly))))"
    by (cases "priv_read sampleEnv (loaderOf mainOnly)") auto
  show ?thesis
    using d run c
      worklist_invariants [of mainOnly sampleEnv "''extra.cfg''" False "loaderOf mainOnly" None
        "snd (the (priv_read sampleEnv (loaderOf mainOnly)))"]
    by (simp add: loaderOf_def)
qed

text \<open>
  Claim C9 as it is written fails in its first invariant. After the load of the second
  sample the list has the entries \<open>/etc/extra.cfg\<close> and \<open>/etc/./extra.cfg\<close>: two strings
  with one canonical form. What is distinct are the strings that \<^verbatim>\<open>pushFile\<close> stores.
\<close>

theorem shared_canonical_path_counterexample:
  "map_option (map Path \<circ> files \<circ> snd) (ReadDefault dotEnv Map.empty ''/etc/main.cfg'') =
     Some [''/etc/main.cfg'', ''/etc/extra.cfg'', ''/etc/./extra.cfg''] \<and>
   dotFree ''/etc/./extra.cfg'' = dotFree ''/etc/extra.cfg'' \<and>
   ''/etc/./extra.cfg'' \<noteq> ''/etc/extra.cfg'' \<and>
   snd (pushFile dotEnv ''/etc/./extra.cfg'' False mainExtra) =
     mainExtra @ [\<lparr>Path = ''/etc/./extra.cfg'', Required = False, Read = False\<rparr>]"
  by code_simp

subsection \<open>Every file is opened once\<close>

lemma priv_read_openedOnce:
  assumes "priv_read env st = Some (e, st')" and "openedOnce st"
  shows "distinct (opened st') \<and> distinct (map Path (files st')) \<and>
         (e = None \<longrightarrow> list_all Read (files st') \<and>
                       (\<forall>f\<in>set (files st'). count_list (opened st') (Path f) = 1))"
proof -
  let ?E = "\<lambda>s. distinct (opened s) \<and> distinct (map Path (files s))"
  have "case e of None \<Rightarrow> openedOnce st' \<and> list_all Read (files st') | Some x \<Rightarrow> ?E st'"
    by (rule priv_read_rule [where P = openedOnce and E = "\<lambda>x. ?E", OF assms])
       (simp_all add: openedOnce_step)
  then show ?thesis
  proof (cases e)
    case None
    assume "case e of None \<Rightarrow> openedOnce st' \<and> list_all Read (files st') | Some x \<Rightarrow> ?E st'"
    then have J: "openedOnce st'" and all: "list_all Read (files st')" using None by simp_all
    have "Path f \<in> set (opened st')" if "f \<in> set (files st')" for f
      using that J all by (auto simp: openedOnce_def in_set_conv_nth list_all_length)
    then show ?thesis
      using J all None by (simp add: openedOnce_def count_list_distinct)
  next
    case (Some x)
    assume "case e of None \<Rightarrow> openedOnce st' \<and> list_all Read (files st') | Some x \<Rightarrow> ?E st'"
    then show ?thesis using Some by simp
  qed
qed

lemma openedOnce_start:
  "openedOnce \<lparr>conf = c0, files = snd (requireFile env fname []), opened = []\<rparr>"
  using pushFile_cases [of env fname True "[]"]
  by (auto simp: openedOnce_def requireFile_def)

lemma pushCandidates_present:
  "set cs \<subseteq> PathG ` set lst \<Longrightarrow> pushCandidates cs lst = lst"
  by (cases cs) (auto simp: list_ex_iff)

lemma pushCandidates_distinct:
  "distinct (map PathG lst) \<Longrightarrow> distinct (map PathG (pushCandidates cs lst))"
proof (induction cs arbitrary: lst)
  case Nil
  then show ?case by simp
next
  case (Cons c cs)
  show ?case
  proof (cases "list_ex (\<lambda>file. PathG file = c) lst")
    case True
    then show ?thesis using Cons.prems by simp
  next
    case False
    then have "distinct (map PathG (lst @ [\<lparr>PathG = c, ReadG = False\<rparr>]))"
      using Cons.prems by (auto simp: list_ex_iff)
    then show ?thesis using Cons.IH False by simp
  qed
qed

lemma pushFileG_resolve:
  "pushFileG env path lst =
     (case resolvePath env (rootOfG lst) path of
        Inl err \<Rightarrow> (Some err, lst)
      | Inr a \<Rightarrow>
          (case (if reGlob a then Glob env a else Inr [a]) of
             Inl err \<Rightarrow> (Some err, lst)
           | Inr candidates \<Rightarrow> (None, pushCandidates candidates lst)))"
proof -
  have r: "(if \<not> IsAbs env path
            then Abs env (if length lst > 0 then Join env (Dir env (PathG (lst ! 0))) path
                          else path)
            else Inr path) = resolvePath env (rootOfG lst) path"
    by (simp add: resolvePath_def rootOfG_def)
  show ?thesis unfolding pushFileG_def r ..
qed

lemma pushFileG_distinct:
  "distinct (map PathG lst) \<Longrightarrow> distinct (map PathG (snd (pushFileG env path lst)))"
proof -
  assume d: "distinct (map PathG lst)"
  show ?thesis
  proof (cases "resolvePath env (rootOfG lst) path")
    case (Inl err)
    then show ?thesis using d by (simp add: pushFileG_resolve)
  next
    case (Inr a)
    show ?thesis
    proof (cases "if reGlob a then Glob env a else Inr [a]")
      case (Inl err)
      then show ?thesis using d Inr by (simp add: pushFileG_resolve)
    next
      case cs: (Inr cs)
      then have "snd (pushFileG env path lst) = pushCandidates cs lst"
        using Inr by (simp add: pushFileG_resolve)
      then show ?thesis using pushCandidates_distinct [OF d] by simp
    qed
  qed
qed

subsection \<open>The list and the load of the glob revision\<close>

lemma extendsG_refl: "extendsG l l"
  by (simp add: extendsG_def)

lemma extendsG_length: "extendsG l l' \<Longrightarrow> length l \<le> length l'"
proof -
  assume "extendsG l l'"
  then have "length (take (length l) l') = length l" by (simp add: extendsG_def)
  then show ?thesis by simp
qed

lemma extendsG_append: "extendsG l l' \<Longrightarrow> \<exists>new. l' = l @ new \<and> list_all (\<lambda>f. \<not> ReadG f) new"
proof -
  assume e: "extendsG l l'"
  then have "l' = l @ drop (length l) l'"
    using append_take_drop_id [of "length l" l'] by (simp add: extendsG_def)
  then show ?thesis using e unfolding extendsG_def by blast
qed

lemma extendsG_appendI: "list_all (\<lambda>f. \<not> ReadG f) new \<Longrightarrow> extendsG l (l @ new)"
  by (simp add: extendsG_def)

lemma extendsG_trans: "extendsG l l' \<Longrightarrow> extendsG l' l'' \<Longrightarrow> extendsG l l''"
proof -
  assume "extendsG l l'" "extendsG l' l''"
  then obtain n1 n2 where "l' = l @ n1" "l'' = l' @ n2"
    "list_all (\<lambda>f. \<not> ReadG f) n1" "list_all (\<lambda>f. \<not> ReadG f) n2"
    using extendsG_append by blast
  then show ?thesis by (simp add: extendsG_def)
qed

lemma extendsG_nth: "extendsG l l' \<Longrightarrow> i < length l \<Longrightarrow> l' ! i = l ! i"
proof -
  assume "extendsG l l'" and i: "i < length l"
  then have "take (length l) l' ! i = l ! i" by (simp add: extendsG_def)
  then show ?thesis using i by simp
qed

lemma pathsG_mark: "map PathG (l[i := (l ! i)\<lparr>ReadG := True\<rparr>]) = map PathG l"
proof (induction l arbitrary: i)
  case Nil
  then show ?case by simp
next
  case (Cons f l)
  then show ?case by (cases i) simp_all
qed

lemma pushCandidates_extends: "extendsG lst (pushCandidates cs lst)"
proof (induction cs arbitrary: lst)
  case Nil
  then show ?case by (simp add: extendsG_refl)
next
  case (Cons c cs)
  show ?case
  proof (cases "list_ex (\<lambda>file. PathG file = c) lst")
    case True
    then show ?thesis by (simp add: extendsG_refl)
  next
    case False
    have "extendsG lst (lst @ [\<lparr>PathG = c, ReadG = False\<rparr>])"
      by (rule extendsG_appendI) simp
    then show ?thesis
      using False Cons.IH [of "lst @ [\<lparr>PathG = c, ReadG = False\<rparr>]"] extendsG_trans by simp
  qed
qed

lemma pushFileG_extends: "extendsG lst (snd (pushFileG env path lst))"
proof (cases "resolvePath env (rootOfG lst) path")
  case (Inl err)
  then show ?thesis by (simp add: pushFileG_resolve extendsG_refl)
next
  case (Inr a)
  show ?thesis
  proof (cases "if reGlob a then Glob env a else Inr [a]")
    case (Inl err)
    then show ?thesis using Inr by (simp add: pushFileG_resolve extendsG_refl)
  next
    case cs: (Inr cs)
    then have "snd (pushFileG env path lst) = pushCandidates cs lst"
      using Inr by (simp add: pushFileG_resolve)
    then show ?thesis using pushCandidates_extends by simp
  qed
qed

lemma read_lineG_plist:
  "plist (snd (read_lineG env l st)) = plist st \<or>
   (\<exists>m. plist (snd (read_lineG env l st)) = snd (pushFileG env m (plist st)))"
  by (auto simp: read_lineG_def Let_def split: option.splits)

lemma read_loopG_preserves:
  assumes "\<And>m l. Q l \<Longrightarrow> Q (snd (pushFileG env m l))"
    and "Q (plist st)"
  shows "Q (plist (snd (read_loopG env ts st)))"
  using assms(2)
proof (induction ts arbitrary: st)
  case Nil
  then show ?case by simp
next
  case (Cons t ts)
  let ?l = "TrimRightSpace (stripComments env t)"
  obtain e st1 where r: "read_lineG env ?l st = (e, st1)" by (cases "read_lineG env ?l st")
  have Q1: "Q (plist st1)"
    using read_lineG_plist [of env ?l st] r Cons.prems assms(1) by auto
  then have "Q (plist (snd (read_loopG env ts st1)))"
    by (rule Cons.IH)
  then show ?case using r Q1 by (cases e) simp_all
qed

lemma priv_readFileG_opened:
  "opened (snd (priv_readFileG env fname st)) = opened st @ [fname]"
proof (cases "Open env fname")
  case (Inl err)
  then show ?thesis by (simp add: priv_readFileG_def Let_def)
next
  case (Inr f)
  obtain e c l where "Config_readG env f (conf st) (files st) = (e, c, l)"
    by (cases "Config_readG env f (conf st) (files st)")
  then show ?thesis
    using Inr by (cases e) (simp_all add: priv_readFileG_def Let_def)
qed

lemma priv_readFileG_preserves:
  assumes "\<And>m l. Q l \<Longrightarrow> Q (snd (pushFileG env m l))"
    and "Q (files st)"
  shows "Q (files (snd (priv_readFileG env fname st)))"
proof (cases "Open env fname")
  case (Inl err)
  then show ?thesis using assms(2) by (simp add: priv_readFileG_def Let_def)
next
  case (Inr f)
  let ?p = "\<lparr>section = [], option = [], pconf = conf st, plist = files st\<rparr>"
  obtain e p where r: "read_loopG env (scanned f) ?p = (e, p)"
    by (cases "read_loopG env (scanned f) ?p")
  have "Q (plist (snd (read_loopG env (scanned f) ?p)))"
    by (rule read_loopG_preserves) (use assms in simp_all)
  then show ?thesis
    using Inr r
    by (cases e; cases "scanErr f") (simp_all add: priv_readFileG_def Config_readG_def Let_def)
qed

lemma priv_readFileG_extends: "extendsG (files st) (files (snd (priv_readFileG env fname st)))"
proof (rule priv_readFileG_preserves [where Q = "extendsG (files st)"])
  show "extendsG (files st) (files st)" by (rule extendsG_refl)
next
  fix m l
  assume "extendsG (files st) l"
  then show "extendsG (files st) (snd (pushFileG env m l))"
    using pushFileG_extends extendsG_trans by blast
qed

lemma priv_readFileG_distinct:
  "distinct (map PathG (files st)) \<Longrightarrow>
   distinct (map PathG (files (snd (priv_readFileG env fname st))))"
  by (rule priv_readFileG_preserves [where Q = "\<lambda>l. distinct (map PathG l)"])
     (simp_all add: pushFileG_distinct)

lemma passLoopG_rule:
  assumes ok: "\<And>s j s'. P s \<Longrightarrow> j < length (files s) \<Longrightarrow> \<not> ReadG (files s ! j) \<Longrightarrow>
             priv_readFileG env (PathG (files s ! j)) s = (None, s') \<Longrightarrow>
             P (s'\<lparr>files := (files s')[j := (files s' ! j)\<lparr>ReadG := True\<rparr>]\<rparr>)"
    and err: "\<And>s j s' x. P s \<Longrightarrow> j < length (files s) \<Longrightarrow> \<not> ReadG (files s ! j) \<Longrightarrow>
             priv_readFileG env (PathG (files s ! j)) s = (Some x, s') \<Longrightarrow>
             E x s'"
    and "P st" and "i + k \<le> length (files st)"
    and "passLoopG env k i h st = (e, h', st')"
  shows "case e of None \<Rightarrow> P st' | Some x \<Rightarrow> E x st'"
  using assms(3-)
proof (induction k arbitrary: i h st)
  case 0
  then show ?case by simp
next
  case (Suc k)
  show ?case
  proof (cases "ReadG (files st ! i)")
    case True
    then have "passLoopG env k (i + 1) h st = (e, h', st')"
      using Suc.prems(3) by simp
    then show ?thesis
      using Suc.IH [of st "i + 1" h] Suc.prems(1,2) by simp
  next
    case False
    obtain e1 s1 where
      r: "priv_readFileG env (PathG (files st ! i)) st = (e1, s1)"
      by (cases "priv_readFileG env (PathG (files st ! i)) st")
    have i: "i < length (files st)" using Suc.prems(2) by simp
    show ?thesis
    proof (cases e1)
      case None
      let ?s2 = "s1\<lparr>files := (files s1)[i := (files s1 ! i)\<lparr>ReadG := True\<rparr>]\<rparr>"
      have P2: "P ?s2"
        using ok [OF Suc.prems(1) i False] r None by simp
      have "extendsG (files st) (files s1)"
        using priv_readFileG_extends [of st env "PathG (files st ! i)"] r
        by simp
      then have len: "i + 1 + k \<le> length (files ?s2)"
        using extendsG_length Suc.prems(2) by fastforce
      have "passLoopG env k (i + 1) True ?s2 = (e, h', st')"
        using Suc.prems(3) False r None by simp
      then show ?thesis
        using Suc.IH [of ?s2 "i + 1" True] P2 len by simp
    next
      case (Some x)
      then have "e = Some x" "st' = s1"
        using Suc.prems(3) False r by simp_all
      then show ?thesis
        using err [OF Suc.prems(1) i False] r Some by simp
    qed
  qed
qed

lemma passLoopG_flag_kept: "passLoopG env k i True st = (e, h', st') \<Longrightarrow> h'"
proof (induction k arbitrary: i st)
  case 0
  then show ?case by simp
next
  case (Suc k)
  then show ?case
    by (auto split: if_splits prod.splits option.splits)
qed

lemma passLoopG_nothing_unread:
  "passLoopG env k i False st = (None, False, st') \<Longrightarrow>
   st' = st \<and> (\<forall>j<k. ReadG (files st ! (i + j)))"
proof (induction k arbitrary: i)
  case 0
  then show ?case by simp
next
  case (Suc k)
  show ?case
  proof (cases "ReadG (files st ! i)")
    case True
    then have "passLoopG env k (Suc i) False st = (None, False, st')"
      using Suc.prems by simp
    then have "st' = st" and *: "\<forall>j<k. ReadG (files st ! (Suc i + j))"
      using Suc.IH by blast+
    have "ReadG (files st ! (i + j))" if "j < Suc k" for j
      using that True * by (cases j) simp_all
    then show ?thesis using \<open>st' = st\<close> by blast
  next
    case False
    then show ?thesis
      using Suc.prems passLoopG_flag_kept
      by (fastforce split: prod.splits option.splits)
  qed
qed

lemma priv_readG_rule:
  assumes run: "priv_readG env st = Some (e, st')" and "P st"
    and ok: "\<And>s j s'. P s \<Longrightarrow> j < length (files s) \<Longrightarrow> \<not> ReadG (files s ! j) \<Longrightarrow>
             priv_readFileG env (PathG (files s ! j)) s = (None, s') \<Longrightarrow>
             P (s'\<lparr>files := (files s')[j := (files s' ! j)\<lparr>ReadG := True\<rparr>]\<rparr>)"
    and err: "\<And>s j s' x. P s \<Longrightarrow> j < length (files s) \<Longrightarrow> \<not> ReadG (files s ! j) \<Longrightarrow>
             priv_readFileG env (PathG (files s ! j)) s = (Some x, s') \<Longrightarrow>
             E x s'"
  shows "case e of None \<Rightarrow> P st' \<and> list_all ReadG (files st') | Some x \<Rightarrow> E x st'"
proof -
  have "env' = env \<longrightarrow> P s \<longrightarrow>
        (case fst r of None \<Rightarrow> P (snd r) \<and> list_all ReadG (files (snd r)) | Some x \<Rightarrow> E x (snd r))"
    if run': "priv_readG env' s = Some r" for env' s r
  proof (rule priv_readG.raw_induct
      [where P = "\<lambda>env' s r. env' = env \<longrightarrow> P s \<longrightarrow>
         (case fst r of None \<Rightarrow> P (snd r) \<and> list_all ReadG (files (snd r))
          | Some x \<Rightarrow> E x (snd r))", OF _ run'])
    fix rec env' s r
    assume IH: "\<And>env' s r. rec env' s = Some r \<Longrightarrow> env' = env \<longrightarrow> P s \<longrightarrow>
         (case fst r of None \<Rightarrow> P (snd r) \<and> list_all ReadG (files (snd r))
          | Some x \<Rightarrow> E x (snd r))"
      and hyp: "(case passLoopG env' (length (files s)) 0 False s of
          (None, h, st') \<Rightarrow> if h then rec env' st' else Some (None, st')
        | (Some err, h, st') \<Rightarrow> Some (Some err, st')) = Some r"
    show "env' = env \<longrightarrow> P s \<longrightarrow>
         (case fst r of None \<Rightarrow> P (snd r) \<and> list_all ReadG (files (snd r))
          | Some x \<Rightarrow> E x (snd r))"
    proof (intro impI)
      assume env: "env' = env" and P: "P s"
      obtain e1 h1 s1 where p: "passLoopG env (length (files s)) 0 False s = (e1, h1, s1)"
        by (cases "passLoopG env (length (files s)) 0 False s")
      have post: "case e1 of None \<Rightarrow> P s1 | Some x \<Rightarrow> E x s1"
        by (rule passLoopG_rule [where P = P and E = E, OF ok err P _ p]) simp_all
      show "case fst r of None \<Rightarrow> P (snd r) \<and> list_all ReadG (files (snd r))
            | Some x \<Rightarrow> E x (snd r)"
      proof (cases e1)
        case (Some x)
        then have "r = (Some x, s1)" using hyp p env by simp
        then show ?thesis using post Some by simp
      next
        case None
        show ?thesis
        proof (cases h1)
          case True
          then have "rec env s1 = Some r" using hyp p env None by simp
          then show ?thesis using IH post None by simp
        next
          case False
          then have r: "r = (None, s1)" using hyp p env None by simp
          have "passLoopG env (length (files s)) 0 False s = (None, False, s1)"
            using p None False by simp
          then have "s1 = s \<and> (\<forall>j<length (files s). ReadG (files s ! (0 + j)))"
            by (rule passLoopG_nothing_unread)
          then have "list_all ReadG (files s1)" by (simp add: list_all_length)
          then show ?thesis using r post None by simp
        qed
      qed
    qed
  qed
  from this [OF run] show ?thesis using assms(2) by (cases e) simp_all
qed

lemma openedOnceG_step:
  assumes J: "openedOnceG s" and j: "j < length (files s)" and u: "\<not> ReadG (files s ! j)"
    and r: "priv_readFileG env (PathG (files s ! j)) s = (e, s')"
  shows "openedOnceG (s'\<lparr>files := (files s')[j := (files s' ! j)\<lparr>ReadG := True\<rparr>]\<rparr>)"
    and "distinct (opened s') \<and> distinct (map PathG (files s'))"
proof -
  let ?p = "PathG (files s ! j)"
  have ext: "extendsG (files s) (files s')"
    using priv_readFileG_extends [of s env ?p] r by simp
  have dis: "distinct (map PathG (files s'))"
    using priv_readFileG_distinct [of s env ?p] r J
    by (simp add: openedOnceG_def)
  have op: "opened s' = opened s @ [?p]"
    using priv_readFileG_opened [of env ?p s] r by simp
  have len: "length (files s) \<le> length (files s')" using ext by (rule extendsG_length)
  have same: "files s' ! k = files s ! k" if "k < length (files s)" for k
    using ext that by (rule extendsG_nth)
  obtain new where new: "files s' = files s @ new" "list_all (\<lambda>f. \<not> ReadG f) new"
    using ext extendsG_append by blast
  have notin: "?p \<notin> set (opened s)"
    using J j u by (auto simp: openedOnceG_def)
  show d: "distinct (opened s') \<and> distinct (map PathG (files s'))"
    using J notin op dis by (simp add: openedOnceG_def)
  have inj: "PathG (files s' ! k) = PathG (files s' ! j) \<Longrightarrow> k = j" if "k < length (files s')" for k
    using dis that j len
    by (metis (no_types, lifting) distinct_conv_nth length_map nth_map order.strict_trans2)
  have newpath: "PathG (files s' ! k) \<notin> set (opened s)"
    if "length (files s) \<le> k" "k < length (files s')" for k
  proof
    assume "PathG (files s' ! k) \<in> set (opened s)"
    then have "PathG (files s' ! k) \<in> PathG ` set (files s)"
      using J by (auto simp: openedOnceG_def)
    then obtain i where i: "i < length (files s)" "PathG (files s ! i) = PathG (files s' ! k)"
      by (auto simp: in_set_conv_nth)
    then have "PathG (files s' ! i) = PathG (files s' ! k)" using same by simp
    moreover have "i < length (files s')" "i \<noteq> k" using i that len by simp_all
    ultimately show False
      using dis that(2)
      by (metis (no_types, lifting) distinct_conv_nth length_map nth_map)
  qed
  have unread_new: "\<not> ReadG (files s' ! k)"
    if "length (files s) \<le> k" "k < length (files s')" for k
    using that new by (auto simp: nth_append list_all_length)
  show "openedOnceG (s'\<lparr>files := (files s')[j := (files s' ! j)\<lparr>ReadG := True\<rparr>]\<rparr>)"
    unfolding openedOnceG_def
  proof (intro conjI allI impI)
    show "distinct (map PathG (files (s'\<lparr>files := (files s')[j := (files s' ! j)\<lparr>ReadG := True\<rparr>]\<rparr>)))"
      using dis by (simp add: pathsG_mark)
    show "distinct (opened (s'\<lparr>files := (files s')[j := (files s' ! j)\<lparr>ReadG := True\<rparr>]\<rparr>))"
      using d by simp
    have "set (opened s') \<subseteq> set (map PathG (files s'))"
      using J op j same [OF j] new len by (auto simp: openedOnceG_def)
    then show "set (opened (s'\<lparr>files := (files s')[j := (files s' ! j)\<lparr>ReadG := True\<rparr>]\<rparr>))
        \<subseteq> PathG ` set (files (s'\<lparr>files := (files s')[j := (files s' ! j)\<lparr>ReadG := True\<rparr>]\<rparr>))"
      using pathsG_mark [of "files s'" j] by (metis loader.select_convs(2) loader.select_convs(3) loader.surjective loader.update_convs(2) set_map)
  next
    fix k
    assume k: "k < length (files (s'\<lparr>files := (files s')[j := (files s' ! j)\<lparr>ReadG := True\<rparr>]\<rparr>))"
    then have k': "k < length (files s')" by simp
    show "ReadG (files (s'\<lparr>files := (files s')[j := (files s' ! j)\<lparr>ReadG := True\<rparr>]\<rparr>) ! k) \<longleftrightarrow>
          PathG (files (s'\<lparr>files := (files s')[j := (files s' ! j)\<lparr>ReadG := True\<rparr>]\<rparr>) ! k)
            \<in> set (opened (s'\<lparr>files := (files s')[j := (files s' ! j)\<lparr>ReadG := True\<rparr>]\<rparr>))"
    proof (cases "k = j")
      case True
      then show ?thesis using k' op same [OF j] by simp
    next
      case False
      then have ne: "PathG (files s' ! k) \<noteq> ?p" using inj [OF k'] same [OF j] by auto
      show ?thesis
      proof (cases "k < length (files s)")
        case True
        then show ?thesis
          using False k' op ne same [OF True] J by (simp add: openedOnceG_def)
      next
        case False
        then show ?thesis
          using \<open>k \<noteq> j\<close> k' op ne newpath [of k] unread_new [of k] by simp
      qed
    qed
  qed
qed

lemma priv_readG_openedOnce:
  assumes "priv_readG env st = Some (e, st')" and "openedOnceG st"
  shows "distinct (opened st') \<and> distinct (map PathG (files st')) \<and>
         (e = None \<longrightarrow> list_all ReadG (files st') \<and>
                       (\<forall>f\<in>set (files st'). count_list (opened st') (PathG f) = 1))"
proof -
  let ?E = "\<lambda>s. distinct (opened s) \<and> distinct (map PathG (files s))"
  have "case e of None \<Rightarrow> openedOnceG st' \<and> list_all ReadG (files st') | Some x \<Rightarrow> ?E st'"
    by (rule priv_readG_rule [where P = openedOnceG and E = "\<lambda>x. ?E", OF assms])
       (simp_all add: openedOnceG_step)
  then show ?thesis
  proof (cases e)
    case None
    assume "case e of None \<Rightarrow> openedOnceG st' \<and> list_all ReadG (files st') | Some x \<Rightarrow> ?E st'"
    then have J: "openedOnceG st'" and all: "list_all ReadG (files st')" using None by simp_all
    have "PathG f \<in> set (opened st')" if "f \<in> set (files st')" for f
      using that J all by (auto simp: openedOnceG_def in_set_conv_nth list_all_length)
    then show ?thesis
      using J all None by (simp add: openedOnceG_def count_list_distinct)
  next
    case (Some x)
    assume "case e of None \<Rightarrow> openedOnceG st' \<and> list_all ReadG (files st') | Some x \<Rightarrow> ?E st'"
    then show ?thesis using Some by simp
  qed
qed

lemma openedOnceG_start:
  "openedOnceG \<lparr>conf = c0, files = snd (pushFileG env fname []), opened = []\<rparr>"
proof -
  have "extendsG [] (snd (pushFileG env fname []))" by (rule pushFileG_extends)
  then have "list_all (\<lambda>f. \<not> ReadG f) (snd (pushFileG env fname []))"
    by (simp add: extendsG_def)
  moreover have "distinct (map PathG (snd (pushFileG env fname [])))"
    by (rule pushFileG_distinct) simp
  ultimately show ?thesis by (simp add: openedOnceG_def list_all_length)
qed

subsection \<open>Every file is opened once: the claim\<close>

text \<open>
  Claim C1, as the code has it. The key of the list is the absolute path that \<^verbatim>\<open>pushFile\<close>
  computes, compared as a string. In the first revision, pushing a path whose absolute
  path is in the list leaves the list as it is; so does the glob revision when every
  candidate of the expansion (the absolute path itself, when it has no wildcard) is in
  the list, and in any case it keeps the paths of the list distinct. In both revisions a
  load that returns has passed no path to \<^verbatim>\<open>os.Open\<close> twice, and when it returns without
  error every entry of the list is read and its path was passed to \<^verbatim>\<open>os.Open\<close> exactly
  once.
\<close>

theorem enqueue_listed_path_once:
  "(resolvePath env (rootOf lst) path = Inr a \<and> a \<in> Path ` set lst \<longrightarrow>
      pushFile env path required lst = (None, lst)) \<and>
   (resolvePath env (rootOfG lstG) path = Inr a \<and>
    (if reGlob a then Glob env a else Inr [a]) = Inr cs \<and> set cs \<subseteq> PathG ` set lstG \<longrightarrow>
      pushFileG env path lstG = (None, lstG)) \<and>
   (distinct (map PathG lstG) \<longrightarrow> distinct (map PathG (snd (pushFileG env path lstG)))) \<and>
   (ReadDefault env c0 fname = Some (e, st') \<longrightarrow>
      distinct (opened st') \<and> distinct (map Path (files st')) \<and>
      (e = None \<longrightarrow> list_all Read (files st') \<and>
                    (\<forall>f\<in>set (files st'). count_list (opened st') (Path f) = 1))) \<and>
   (ReadDefaultG env c0 fnameG = Some (eG, stG') \<longrightarrow>
      distinct (opened stG') \<and> distinct (map PathG (files stG')) \<and>
      (eG = None \<longrightarrow> list_all ReadG (files stG') \<and>
                     (\<forall>f\<in>set (files stG'). count_list (opened stG') (PathG f) = 1)))"
proof (intro conjI impI)
  assume "resolvePath env (rootOf lst) path = Inr a \<and> a \<in> Path ` set lst"
  then show "pushFile env path required lst = (None, lst)"
    by (simp add: pushFile_resolve)
next
  assume "resolvePath env (rootOfG lstG) path = Inr a \<and>
    (if reGlob a then Glob env a else Inr [a]) = Inr cs \<and> set cs \<subseteq> PathG ` set lstG"
  then show "pushFileG env path lstG = (None, lstG)"
    by (simp add: pushFileG_resolve pushCandidates_present)
next
  assume "distinct (map PathG lstG)"
  then show "distinct (map PathG (snd (pushFileG env path lstG)))"
    by (rule pushFileG_distinct)
next
  assume run: "ReadDefault env c0 fname = Some (e, st')"
  have *: "distinct (opened st') \<and> distinct (map Path (files st')) \<and>
         (e = None \<longrightarrow> list_all Read (files st') \<and>
                       (\<forall>f\<in>set (files st'). count_list (opened st') (Path f) = 1))"
    using priv_read_openedOnce [OF run [unfolded ReadDefault_def] openedOnce_start] .
  show "distinct (opened st')" using * by simp
  show "distinct (map Path (files st'))" using * by simp
  show "list_all Read (files st')" if "e = None" using * that by simp
  show "\<forall>f\<in>set (files st'). count_list (opened st') (Path f) = 1" if "e = None"
    using * that by simp
next
  assume run: "ReadDefaultG env c0 fnameG = Some (eG, stG')"
  have *: "distinct (opened stG') \<and> distinct (map PathG (files stG')) \<and>
         (eG = None \<longrightarrow> list_all ReadG (files stG') \<and>
                        (\<forall>f\<in>set (files stG'). count_list (opened stG') (PathG f) = 1))"
    using priv_readG_openedOnce [OF run [unfolded ReadDefaultG_def] openedOnceG_start] .
  show "distinct (opened stG')" using * by simp
  show "distinct (map PathG (files stG'))" using * by simp
  show "list_all ReadG (files stG')" if "eG = None" using * that by simp
  show "\<forall>f\<in>set (files stG'). count_list (opened stG') (PathG f) = 1" if "eG = None"
    using * that by simp
qed

text \<open>
  Claim C1 as it is written fails. The path \<open>/etc/./extra.cfg\<close> has the canonical form
  \<open>/etc/extra.cfg\<close>, which is in the list; an absolute path is compared as it is given, so
  it is appended all the same, and the load opens the same file twice, in both revisions.
\<close>

theorem same_file_twice_counterexample:
  "dotFree ''/etc/./extra.cfg'' = ''/etc/extra.cfg'' \<and>
   ''/etc/extra.cfg'' \<in> set (map Path mainExtra) \<and>
   ''/etc/extra.cfg'' \<in> set (map PathG mainExtraG) \<and>
   pushFile dotEnv ''/etc/./extra.cfg'' False mainExtra =
     (None, mainExtra @ [\<lparr>Path = ''/etc/./extra.cfg'', Required = False, Read = False\<rparr>]) \<and>
   pushFileG dotEnv ''/etc/./extra.cfg'' mainExtraG =
     (None, mainExtraG @ [\<lparr>PathG = ''/etc/./extra.cfg'', ReadG = False\<rparr>]) \<and>
   Open dotEnv ''/etc/./extra.cfg'' = Open dotEnv ''/etc/extra.cfg'' \<and>
   map_option fst (ReadDefault dotEnv Map.empty ''/etc/main.cfg'') = Some None \<and>
   map_option (opened \<circ> snd) (ReadDefault dotEnv Map.empty ''/etc/main.cfg'') =
     Some [''/etc/main.cfg'', ''/etc/extra.cfg'', ''/etc/./extra.cfg''] \<and>
   map_option fst (ReadDefaultG dotEnv Map.empty ''/etc/main.cfg'') = Some None \<and>
   map_option (opened \<circ> snd) (ReadDefaultG dotEnv Map.empty ''/etc/main.cfg'') =
     Some [''/etc/main.cfg'', ''/etc/extra.cfg'', ''/etc/./extra.cfg'']"
  by code_simp

theorem enqueue_listed_path_once_witness:
  "resolvePath sampleEnv (rootOf mainOnly) ''main.cfg'' = Inr ''/etc/main.cfg'' \<and>
   ''/etc/main.cfg'' \<in> Path ` set mainOnly \<and>
   pushFile sampleEnv ''main.cfg'' False mainOnly = (None, mainOnly) \<and>
   resolvePath sampleEnv (rootOfG mainOnlyG) ''main.cfg'' = Inr ''/etc/main.cfg'' \<and>
   (if reGlob ''/etc/main.cfg'' then Glob sampleEnv ''/etc/main.cfg'' else Inr [''/etc/main.cfg'']) =
     Inr [''/etc/main.cfg''] \<and>
   set [''/etc/main.cfg''] \<subseteq> PathG ` set mainOnlyG \<and>
   pushFileG sampleEnv ''main.cfg'' mainOnlyG = (None, mainOnlyG) \<and>
   distinct (map PathG mainOnlyG) \<and>
   ReadDefault sampleEnv Map.empty ''/etc/main.cfg'' =
     Some (None, snd (the (ReadDefault sampleEnv Map.empty ''/etc/main.cfg''))) \<and>
   distinct (opened (snd (the (ReadDefault sampleEnv Map.empty ''/etc/main.cfg'')))) \<and>
   list_all (\<lambda>f. count_list (opened (snd (the (ReadDefault sampleEnv Map.empty ''/etc/main.cfg''))))
                    (Path f) = 1)
     (files (snd (the (ReadDefault sampleEnv Map.empty ''/etc/main.cfg'')))) \<and>
   map_option (opened \<circ> snd) (ReadDefault sampleEnv Map.empty ''/etc/main.cfg'') =
     Some [''/etc/main.cfg'', ''/etc/extra.cfg'', ''/etc/missing.cfg''] \<and>
   ReadDefaultG sampleEnv Map.empty ''/etc/strict.cfg'' =
     Some (None, snd (the (ReadDefaultG sampleEnv Map.empty ''/etc/strict.cfg''))) \<and>
   distinct (opened (snd (the (ReadDefaultG sampleEnv Map.empty ''/etc/strict.cfg'')))) \<and>
   list_all (\<lambda>f. count_list (opened (snd (the (ReadDefaultG sampleEnv Map.empty ''/etc/strict.cfg''))))
                    (PathG f) = 1)
     (files (snd (the (ReadDefaultG sampleEnv Map.empty ''/etc/strict.cfg'')))) \<and>
   map_option (opened \<circ> snd) (ReadDefaultG sampleEnv Map.empty ''/etc/strict.cfg'') =
     Some [''/etc/strict.cfg'']"
proof -
  have c: "map_option (opened \<circ> snd) (ReadDefault sampleEnv Map.empty ''/etc/main.cfg'') =
     Some [''/etc/main.cfg'', ''/etc/extra.cfg'', ''/etc/missing.cfg'']"
    "map_option (opened \<circ> snd) (ReadDefaultG sampleEnv Map.empty ''/etc/strict.cfg'') =
     Some [''/etc/strict.cfg'']"
    by code_simp+
  have "map_option fst (ReadDefaultG sampleEnv Map.empty ''/etc/strict.cfg'') = Some None"
    by code_simp
  then have runG: "ReadDefaultG sampleEnv Map.empty ''/etc/strict.cfg'' =
     Some (None, snd (the (ReadDefaultG sampleEnv Map.empty ''/etc/strict.cfg'')))"
    by (cases "ReadDefaultG sampleEnv Map.empty ''/etc/strict.cfg''") auto
  have r: "resolvePath sampleEnv (rootOf mainOnly) ''main.cfg'' = Inr ''/etc/main.cfg''"
    "''/etc/main.cfg'' \<in> Path ` set mainOnly"
    by (simp_all add: resolvePath_def rootOf_def mainOnly_def sampleEnv_def)
  have rG: "resolvePath sampleEnv (rootOfG mainOnlyG) ''main.cfg'' = Inr ''/etc/main.cfg''"
    "(if reGlob ''/etc/main.cfg'' then Glob sampleEnv ''/etc/main.cfg''
      else Inr [''/etc/main.cfg'']) = Inr [''/etc/main.cfg'']"
    "set [''/etc/main.cfg''] \<subseteq> PathG ` set mainOnlyG"
    "distinct (map PathG mainOnlyG)"
    by (simp_all add: resolvePath_def rootOfG_def mainOnlyG_def sampleEnv_def reGlob_def)
  have "map_option fst (ReadDefault sampleEnv Map.empty ''/etc/main.cfg'') = Some None"
    by code_simp
  then have run: "ReadDefault sampleEnv Map.empty ''/etc/main.cfg'' =
     Some (None, snd (the (ReadDefault sampleEnv Map.empty ''/etc/main.cfg'')))"
    by (cases "ReadDefault sampleEnv Map.empty ''/etc/main.cfg''") auto
  show ?thesis
    using r rG run runG c
      enqueue_listed_path_once [of sampleEnv mainOnly "''main.cfg''" "''/etc/main.cfg''" False
        mainOnlyG "[''/etc/main.cfg'']" Map.empty "''/etc/main.cfg''" None
        "snd (the (ReadDefault sampleEnv Map.empty ''/etc/main.cfg''))"
        "''/etc/strict.cfg''" None
        "snd (the (ReadDefaultG sampleEnv Map.empty ''/etc/strict.cfg''))"]
    by (simp add: list_all_iff)
qed

subsection \<open>Files that cannot be opened, along the load\<close>




















subsection \<open>The load returns\<close>

lemma finite_targets:
  assumes "finite {p. \<exists>f. Open env p = Inr f}"
  shows "finite (targets env root)"
proof -
  let ?F = "{p. \<exists>f. Open env p = Inr f}"
  let ?U = "\<Union>p\<in>?F. (\<lambda>m. projr (resolvePath env (Some root) m)) `
              set (directives env (scanned (projr (Open env p))))"
  have "finite ?U" using assms by (intro finite_UN_I finite_imageI) simp_all
  moreover have "targets env root \<subseteq> ?U"
  proof
    fix a
    assume "a \<in> targets env root"
    then obtain p f m where h: "Open env p = Inr f" "m \<in> set (directives env (scanned f))"
      "resolvePath env (Some root) m = Inr a"
      unfolding targets_def by blast
    then have "p \<in> ?F" and "a = projr (resolvePath env (Some root) m)"
      and "m \<in> set (directives env (scanned (projr (Open env p))))"
      by simp_all
    then show "a \<in> ?U" by blast
  qed
  ultimately show ?thesis by (rule rev_finite_subset)
qed

lemma pushFile_within:
  assumes "Open env p = Inr f" and "m \<in> set (directives env (scanned f))"
    and "targets env root \<subseteq> T" and "within root T l"
  shows "within root T (snd (pushFile env m r l))"
proof -
  have root: "rootOf l = Some root" using assms(4) by (simp add: rootOf_def within_def)
  from pushFile_cases [of env m r l] show ?thesis
  proof
    assume "snd (pushFile env m r l) = l"
    then show ?thesis using assms(4) by simp
  next
    assume "\<exists>a. resolvePath env (rootOf l) m = Inr a \<and> a \<notin> Path ` set l \<and>
        snd (pushFile env m r l) = l @ [\<lparr>Path = a, Required = r, Read = False\<rparr>]"
    then obtain a where a: "resolvePath env (Some root) m = Inr a"
      "snd (pushFile env m r l) = l @ [\<lparr>Path = a, Required = r, Read = False\<rparr>]"
      using root by auto
    then have "a \<in> targets env root" using assms(1,2) unfolding targets_def by blast
    then show ?thesis using a(2) assms(3,4) by (auto simp: within_def nth_append)
  qed
qed

lemma priv_readFile_within:
  assumes "targets env root \<subseteq> T" and "within root T (files s)"
  shows "within root T (files (snd (priv_readFile env fname req s)))"
  by (rule priv_readFile_preserves [where Q = "within root T"])
     (use assms pushFile_within in blast)+

lemma passLoop_progress:
  assumes "i + k \<le> length (files st)" and "passLoop env k i h st = (None, h', st')"
  shows "readCount (files st) \<le> readCount (files st') \<and>
         (h' \<longrightarrow> h \<or> readCount (files st) < readCount (files st'))"
  using assms
proof (induction k arbitrary: i h st)
  case 0
  then show ?case by simp
next
  case (Suc k)
  show ?case
  proof (cases "Read (files st ! i)")
    case True
    then have "passLoop env k (i + 1) h st = (None, h', st')" using Suc.prems(2) by simp
    then show ?thesis using Suc.IH [of "i + 1" st h] Suc.prems(1) by simp
  next
    case False
    obtain e1 s1 where
      r: "priv_readFile env (Path (files st ! i)) (Required (files st ! i)) st = (e1, s1)"
      by (cases "priv_readFile env (Path (files st ! i)) (Required (files st ! i)) st")
    have e1: "e1 = None" using Suc.prems(2) False r by (cases e1) simp_all
    let ?s2 = "s1\<lparr>files := (files s1)[i := (files s1 ! i)\<lparr>Read := True\<rparr>]\<rparr>"
    have i: "i < length (files st)" using Suc.prems(1) by simp
    have ext: "extends (files st) (files s1)"
      using priv_readFile_extends [of st env "Path (files st ! i)" "Required (files st ! i)"] r
      by simp
    have len: "length (files st) \<le> length (files s1)" using ext by (rule extends_length)
    have "files s1 ! i = files st ! i" using ext i by (rule extends_nth)
    then have "readCount (files ?s2) = Suc (readCount (files s1))"
      using readCount_mark [of i "files s1"] i len False by simp
    then have c: "readCount (files ?s2) = Suc (readCount (files st))"
      using extends_readCount [OF ext] by simp
    have "passLoop env k (i + 1) True ?s2 = (None, h', st')"
      using Suc.prems(2) False r e1 by simp
    then have "readCount (files ?s2) \<le> readCount (files st')"
      using Suc.IH [of "i + 1" ?s2 True] len Suc.prems(1) by simp
    then show ?thesis using c by simp
  qed
qed

lemma priv_read_terminates_within:
  assumes "finite T" and "targets env root \<subseteq> T"
    and "within root T (files st)" and "distinct (map Path (files st))"
  shows "\<exists>r. priv_read env st = Some r"
  using assms(3,4)
proof (induction "card T - readCount (files st)" arbitrary: st rule: less_induct)
  case less
  let ?I = "\<lambda>s. within root T (files s) \<and> distinct (map Path (files s))"
  obtain e h s1 where p: "passLoop env (length (files st)) 0 False st = (e, h, s1)"
    by (cases "passLoop env (length (files st)) 0 False st")
  show ?case
  proof (cases e)
    case (Some x)
    then show ?thesis using p by (subst priv_read.simps) simp
  next
    case None
    show ?thesis
    proof (cases h)
      case False
      then show ?thesis using p None by (subst priv_read.simps) simp
    next
      case True
      have "case e of None \<Rightarrow> ?I s1 | Some x \<Rightarrow> True"
      proof (rule passLoop_rule [where P = ?I and E = "\<lambda>x s. True", OF _ _ _ _ p])
        show "?I st" using less.prems by simp
      next
        fix s j s'
        assume I: "?I s"
          and r: "priv_readFile env (Path (files s ! j)) (Required (files s ! j)) s = (None, s')"
        have "within root T (files (snd (priv_readFile env (Path (files s ! j))
                 (Required (files s ! j)) s)))"
          using I by (intro priv_readFile_within [OF assms(2)]) simp
        then have "within root T (files s')" using r by simp
        moreover have "distinct (map Path (files (snd (priv_readFile env (Path (files s ! j))
                 (Required (files s ! j)) s))))"
          using I by (intro priv_readFile_distinct) simp
        then have "distinct (map Path (files s'))" using r by simp
        ultimately show "?I (s'\<lparr>files := (files s')[j := (files s' ! j)\<lparr>Read := True\<rparr>]\<rparr>)"
          using paths_mark [of "files s'" j]
          by (cases j) (auto simp: within_def set_map [symmetric] simp del: set_map)
      qed simp_all
      then have I1: "within root T (files s1)" "distinct (map Path (files s1))"
        using None by simp_all
      have "readCount (files st) < readCount (files s1)"
        using passLoop_progress [of 0 "length (files st)" st env False h s1] p None True by simp
      moreover have "readCount (files s1) \<le> card T"
      proof -
        have "readCount (files s1) \<le> length (map Path (files s1))"
          by (simp add: readCount_def)
        also have "\<dots> = card (set (map Path (files s1)))"
          using distinct_card [OF I1(2)] by simp
        also have "\<dots> \<le> card T"
          using I1(1) assms(1) by (intro card_mono) (simp_all add: within_def)
        finally show ?thesis .
      qed
      ultimately have "card T - readCount (files s1) < card T - readCount (files st)"
        by simp
      then have "\<exists>r. priv_read env s1 = Some r"
        using less.hyps I1 by blast
      then show ?thesis using p None True by (subst priv_read.simps) simp
    qed
  qed
qed

text \<open>
  Claim C2. When finitely many paths can be opened, as in every file system, the load
  returns, whatever the files include or require: files that include themselves or each
  other are entered in the list once, and every pass that goes on marks a new entry as
  read. This holds of \<^verbatim>\<open>_read\<close> from every list with distinct paths, and of \<^verbatim>\<open>ReadDefault\<close>.
\<close>

theorem load_terminates:
  assumes "finite {p. \<exists>f. Open env p = Inr f}"
  shows "(distinct (map Path (files st)) \<longrightarrow> (\<exists>r. priv_read env st = Some r)) \<and>
         (\<exists>r. ReadDefault env c0 fname = Some r)"
proof -
  have run: "\<exists>r. priv_read env s = Some r" if d: "distinct (map Path (files s))" for s
  proof (cases "files s")
    case Nil
    then show ?thesis by (subst priv_read.simps) simp
  next
    case (Cons f fs)
    let ?root = "Path (files s ! 0)"
    let ?T = "Path ` set (files s) \<union> targets env ?root"
    have "finite ?T" using finite_targets [OF assms] by simp
    moreover have "within ?root ?T (files s)" using Cons by (auto simp: within_def)
    ultimately show ?thesis
      using priv_read_terminates_within [of ?T env ?root s] d by blast
  qed
  have "distinct (map Path (snd (requireFile env fname [])))"
    unfolding requireFile_def by (rule pushFile_distinct) simp
  then have "\<exists>r. ReadDefault env c0 fname = Some r"
    unfolding ReadDefault_def by (intro run) simp
  then show ?thesis using run by blast
qed

lemma sample_files_finite: "finite {p. \<exists>f. Open sampleEnv p = Inr f}"
proof -
  have "{p. \<exists>f. Open sampleEnv p = Inr f} \<subseteq> {''/etc/main.cfg'', ''/etc/extra.cfg'', ''/etc/strict.cfg''}"
    by (auto simp: sampleEnv_def split: if_splits)
  then show ?thesis by (rule finite_subset) simp
qed

theorem load_terminates_witness:
  "finite {p. \<exists>f. Open sampleEnv p = Inr f} \<and>
   distinct (map Path mainOnly) \<and>
   (\<exists>r. priv_read sampleEnv (loaderOf mainOnly) = Some r) \<and>
   (\<exists>r. ReadDefault sampleEnv Map.empty ''/etc/main.cfg'' = Some r)"
proof -
  have d: "distinct (map Path (files (loaderOf mainOnly)))"
    by (simp add: loaderOf_def mainOnly_def)
  show ?thesis
    using d sample_files_finite
      load_terminates [OF sample_files_finite, of "loaderOf mainOnly" Map.empty "''/etc/main.cfg''"]
    by (simp add: loaderOf_def)
qed

end
